theory Spec2Isabelle
  imports Complex_Main "HOL-Library.Word" "HOL-Library.Multiset" "HOL-Library.Product_Lexorder"
begin

section \<open>Python values used by make\_bb.py\<close>

text \<open>
  The exceptions that the modelled part of the program can raise. A function that can
  raise returns \<open>error + 'a\<close>, with \<open>Inl\<close> for the exception.
\<close>

datatype error = IndexError | OverflowError | ValueError

text \<open>
  A float64 value as numpy and Python see it: a finite number (its exact value), the
  negative zero, the two infinities, and NaN. \<open>Fin 0\<close> is the positive zero.
\<close>

datatype float64 = Fin real | NZero | PInf | NInf | NaN

text \<open>The comparisons of the source: \<open>x >= 0\<close>, \<open>x > 0\<close> and \<open>x < 60\<close>. Every comparison with NaN is false.\<close>

fun float_ge0 :: "float64 \<Rightarrow> bool" where
  "float_ge0 (Fin r) = (0 \<le> r)"
| "float_ge0 NZero = True"
| "float_ge0 PInf = True"
| "float_ge0 NInf = False"
| "float_ge0 NaN = False"

fun float_gt0 :: "float64 \<Rightarrow> bool" where
  "float_gt0 (Fin r) = (0 < r)"
| "float_gt0 NZero = False"
| "float_gt0 PInf = True"
| "float_gt0 NInf = False"
| "float_gt0 NaN = False"

fun float_lt60 :: "float64 \<Rightarrow> bool" where
  "float_lt60 (Fin r) = (r < 60)"
| "float_lt60 NZero = True"
| "float_lt60 PInf = False"
| "float_lt60 NInf = True"
| "float_lt60 NaN = False"

text \<open>
  Python's \<open>int(x)\<close> on a float: truncation towards zero, OverflowError on an infinity,
  ValueError on NaN.
\<close>

fun py_int :: "float64 \<Rightarrow> error + int" where
  "py_int (Fin r) = Inr (if 0 \<le> r then \<lfloor>r\<rfloor> else \<lceil>r\<rceil>)"
| "py_int NZero = Inr 0"
| "py_int PInf = Inl OverflowError"
| "py_int NInf = Inl OverflowError"
| "py_int NaN = Inl ValueError"

text \<open>
  float64 division as numpy performs it on arrays: it never raises. NaN operands,
  \<open>inf / inf\<close> and \<open>0 / 0\<close> give NaN; an infinite dividend or a zero divisor gives an
  infinity, a zero dividend or an infinite divisor gives a zero, both with the sign of the
  quotient. For two finite non-zero operands the result is the rounding of the exact
  quotient: the rounding function \<open>rnd\<close> of the format is a parameter of the model, so
  that nothing proved below depends on how float64 rounds.
\<close>

type_synonym rounding = "real \<Rightarrow> float64"

fun is_nan :: "float64 \<Rightarrow> bool" where
  "is_nan NaN = True"
| "is_nan _ = False"

fun is_inf :: "float64 \<Rightarrow> bool" where
  "is_inf PInf = True"
| "is_inf NInf = True"
| "is_inf _ = False"

fun is_zero :: "float64 \<Rightarrow> bool" where
  "is_zero (Fin r) = (r = 0)"
| "is_zero NZero = True"
| "is_zero _ = False"

fun sign_bit :: "float64 \<Rightarrow> bool" where
  "sign_bit (Fin r) = (r < 0)"
| "sign_bit NZero = True"
| "sign_bit NInf = True"
| "sign_bit _ = False"

fun finite_value :: "float64 \<Rightarrow> real" where
  "finite_value (Fin r) = r"
| "finite_value _ = 0"

definition np_divide :: "rounding \<Rightarrow> float64 \<Rightarrow> float64 \<Rightarrow> float64" where
  "np_divide rnd a b =
     (if is_nan a \<or> is_nan b then NaN
      else if is_inf a \<and> is_inf b then NaN
      else if is_zero a \<and> is_zero b then NaN
      else if is_inf a \<or> is_zero b then (if sign_bit a \<noteq> sign_bit b then NInf else PInf)
      else if is_zero a \<or> is_inf b then (if sign_bit a \<noteq> sign_bit b then NZero else Fin 0)
      else rnd (finite_value a / finite_value b))"

text \<open>The rounding that leaves every quotient as it is, for evaluating the model on concrete inputs.\<close>

definition exact :: rounding where
  "exact r = Fin r"

section \<open>Walker.get\_bounding\_box\<close>

text \<open>
  \<open>bbox\<close> is the matrix \<open>transpose(K . cords_y_minus_z_x)\<close> of the source: one row
  per corner of the 3D box (eight rows), holding the homogeneous image coordinates and the
  depth. The matrix products and the inverse that lead to it are floating-point linear
  algebra and are the input of the model. A row of \<open>bb\<close> is (u, v, depth).
\<close>

type_synonym row = "float64 \<times> float64 \<times> float64"

definition depth :: "row \<Rightarrow> float64" where
  "depth r = snd (snd r)"

definition perspective :: "rounding \<Rightarrow> row list \<Rightarrow> row list" where
  "perspective rnd bbox = map (\<lambda>(a, b, c). (np_divide rnd a c, np_divide rnd b c, c)) bbox"

definition get_bounding_box :: "rounding \<Rightarrow> row list \<Rightarrow> row list option" where
  "get_bounding_box rnd bbox =
     (let bb = perspective rnd bbox in
      if \<not> list_all float_gt0 (map depth bb) \<and> \<not> list_all float_lt60 (map depth bb)
      then None else Some bb)"

section \<open>Walker.get\_2d\_bounding\_box\<close>

text \<open>
  The list comprehension over \<open>range(8)\<close>, which runs over all rows of \<open>bb\<close> (the matrix
  has the eight rows that \<open>create_bb_points\<close> builds): a row is kept when both pixel
  coordinates are \<open>>= 0\<close>, and then both are converted with \<open>int\<close>, which can raise.
  The rows are visited in order, so the first conversion that fails is the one that
  leaves the function.
\<close>

fun collect_points :: "row list \<Rightarrow> error + (int \<times> int) list" where
  "collect_points [] = Inr []"
| "collect_points ((u, v, d) # rows) =
     (if float_ge0 u \<and> float_ge0 v then
        (case py_int u of Inl e \<Rightarrow> Inl e
         | Inr x \<Rightarrow>
            (case py_int v of Inl e \<Rightarrow> Inl e
             | Inr y \<Rightarrow>
                (case collect_points rows of Inl e \<Rightarrow> Inl e
                 | Inr ps \<Rightarrow> Inr ((x, y) # ps))))
      else collect_points rows)"

text \<open>One round of the loop over the points; the state is (min\_x, min\_y, max\_x, max\_y).\<close>

fun update_bounds :: "int \<times> int \<Rightarrow> int \<times> int \<times> int \<times> int \<Rightarrow> int \<times> int \<times> int \<times> int" where
  "update_bounds (x, y) (min_x, min_y, max_x, max_y) =
     (if x < min_x then x else min_x,
      if y < min_y then y else min_y,
      if x > max_x then x else max_x,
      if y > max_y then y else max_y)"

type_synonym rect = "(int \<times> int) \<times> (int \<times> int)"

definition bounds :: "(int \<times> int) list \<Rightarrow> int \<times> int \<times> int \<times> int" where
  "bounds points = fold update_bounds points (100000, 100000, 0, 0)"

definition get_2d_bounding_box :: "rounding \<Rightarrow> row list \<Rightarrow> error + rect option" where
  "get_2d_bounding_box rnd bbox =
     (case get_bounding_box rnd bbox of
        None \<Rightarrow> Inr None
      | Some bb \<Rightarrow>
         (case collect_points bb of
            Inl e \<Rightarrow> Inl e
          | Inr points \<Rightarrow>
             if length points \<noteq> 8 then Inr None
             else (case bounds points of (min_x, min_y, max_x, max_y) \<Rightarrow>
                     if max_x - min_x < 17 \<or> max_y - min_y < 35 then Inr None
                     else Inr (Some ((min_x, min_y), (max_x, max_y))))))"

section \<open>Walker.get\_distance and the Walker object\<close>

text \<open>
  The arithmetic of Python floats: \<open>-\<close>, \<open>*\<close> and \<open>+\<close> never raise. NaN operands give NaN,
  as do \<open>inf - inf\<close> and \<open>inf * 0\<close>; an exact zero has the sign that IEEE 754 gives it in
  round-to-nearest; every other result of finite operands is the rounding \<open>rnd\<close> of the
  exact result, which can be an infinity (overflow) or a zero (underflow).
\<close>

fun fl_neg :: "float64 \<Rightarrow> float64" where
  "fl_neg (Fin r) = (if r = 0 then NZero else Fin (- r))"
| "fl_neg NZero = Fin 0"
| "fl_neg PInf = NInf"
| "fl_neg NInf = PInf"
| "fl_neg NaN = NaN"

definition fl_add :: "rounding \<Rightarrow> float64 \<Rightarrow> float64 \<Rightarrow> float64" where
  "fl_add rnd a b =
     (if is_nan a \<or> is_nan b then NaN
      else if is_inf a \<and> is_inf b then (if a = b then a else NaN)
      else if is_inf a then a
      else if is_inf b then b
      else if finite_value a + finite_value b = 0
        then (if a = NZero \<and> b = NZero then NZero else Fin 0)
      else rnd (finite_value a + finite_value b))"

definition fl_sub :: "rounding \<Rightarrow> float64 \<Rightarrow> float64 \<Rightarrow> float64" where
  "fl_sub rnd a b = fl_add rnd a (fl_neg b)"

definition fl_mul :: "rounding \<Rightarrow> float64 \<Rightarrow> float64 \<Rightarrow> float64" where
  "fl_mul rnd a b =
     (if is_nan a \<or> is_nan b then NaN
      else if (is_inf a \<and> is_zero b) \<or> (is_zero a \<and> is_inf b) then NaN
      else if is_inf a \<or> is_inf b then (if sign_bit a \<noteq> sign_bit b then NInf else PInf)
      else if is_zero a \<or> is_zero b then (if sign_bit a \<noteq> sign_bit b then NZero else Fin 0)
      else rnd (finite_value a * finite_value b))"

text \<open>The comparison \<open>a < b\<close> of two floats; it is false when one of them is NaN.\<close>

definition float_lt :: "float64 \<Rightarrow> float64 \<Rightarrow> bool" where
  "float_lt a b =
     (if is_nan a \<or> is_nan b then False
      else if a = NInf then b \<noteq> NInf
      else if b = PInf then a \<noteq> PInf
      else if a = PInf \<or> b = NInf then False
      else finite_value a < finite_value b)"

text \<open>
  A location holds the three floats that \<open>float()\<close> read from the log, which can be
  infinities or NaN.
\<close>

record loc =
  loc_x :: float64
  loc_y :: float64
  loc_z :: float64

definition get_distance :: "rounding \<Rightarrow> loc \<Rightarrow> loc \<Rightarrow> float64" where
  "get_distance rnd cam_loc obj_loc =
     fl_add rnd
       (fl_mul rnd (fl_sub rnd (loc_x cam_loc) (loc_x obj_loc))
                   (fl_sub rnd (loc_x cam_loc) (loc_x obj_loc)))
       (fl_mul rnd (fl_sub rnd (loc_y cam_loc) (loc_y obj_loc))
                   (fl_sub rnd (loc_y cam_loc) (loc_y obj_loc)))"

text \<open>
  The fields of a Walker that the main loop reads. The constructor computes the rectangle
  and the distance once; an exception of \<open>get_2d_bounding_box\<close> leaves the constructor.
\<close>

record walker =
  walker_id :: int
  location :: loc
  bb2d :: "rect option"
  dist :: float64

definition Walker :: "rounding \<Rightarrow> loc \<Rightarrow> int \<Rightarrow> loc \<Rightarrow> row list \<Rightarrow> error + walker" where
  "Walker rnd cam_loc i l bbox =
     (case get_2d_bounding_box rnd bbox of
        Inl e \<Rightarrow> Inl e
      | Inr r \<Rightarrow> Inr \<lparr>walker_id = i, location = l, bb2d = r, dist = get_distance rnd cam_loc l\<rparr>)"

text \<open>
  \<open>walkers.sort(key=lambda x: x.dist)\<close>. The sort of Python is stable and compares the
  keys with \<open><\<close> only. When no key is NaN, \<open><\<close> orders the keys as \<open>rank\<close> does (the two
  zeros are equal), and the result is the stable sort by \<open>rank\<close>. With a NaN key the
  comparisons contradict each other and what the sort leaves depends on which of them
  it happens to make; it is always a permutation of the list. \<open>unordered\<close> stands for
  that permutation.
\<close>

fun rank :: "float64 \<Rightarrow> nat \<times> real" where
  "rank NInf = (0, 0)"
| "rank (Fin r) = (1, r)"
| "rank NZero = (1, 0)"
| "rank PInf = (2, 0)"
| "rank NaN = (3, 0)"

definition sort_walkers :: "(walker list \<Rightarrow> walker list) \<Rightarrow> walker list \<Rightarrow> walker list" where
  "sort_walkers unordered walkers =
     (if list_ex (\<lambda>w. is_nan (dist w)) walkers
      then (if mset (unordered walkers) = mset walkers then unordered walkers else walkers)
      else sort_key (\<lambda>w. rank (dist w)) walkers)"

section \<open>The occlusion loop of the main program\<close>

text \<open>
  The semantic raster is a numpy array of shape (h, w, 3) of uint8: its two dimensions
  and the BGR triple of each pixel (row first).
\<close>

type_synonym pixel = "8 word \<times> 8 word \<times> 8 word"

record semantic =
  sem_h :: nat
  sem_w :: nat
  sem_at :: "nat \<Rightarrow> nat \<Rightarrow> pixel"

definition pedestrian :: "pixel \<Rightarrow> bool" where
  "pedestrian p = (p = (60, 20, 220))"

text \<open>
  Indexing a sequence of length \<open>n\<close> in Python: a negative index counts from the end,
  an index out of range raises IndexError.
\<close>

definition py_index :: "nat \<Rightarrow> int \<Rightarrow> error + nat" where
  "py_index n i =
     (if 0 \<le> i \<and> i < int n then Inr (nat i)
      else if - int n \<le> i \<and> i < 0 then Inr (nat (int n + i))
      else Inl IndexError)"

text \<open>
  The instance buffer is a list of rows of actor ids, \<open>-1\<close> for an unassigned pixel. The
  buffer has the shape of the semantic raster, so the same index reaches both.
\<close>

type_synonym buffer = "int list list"

text \<open>The assignment \<open>instance[y][x] = walker.id\<close>, at an index already resolved.\<close>

definition assign :: "buffer \<Rightarrow> nat \<Rightarrow> nat \<Rightarrow> int \<Rightarrow> buffer" where
  "assign ins yi xi wid = ins[yi := (ins ! yi)[xi := wid]]"

fun scan_row :: "semantic \<Rightarrow> int \<Rightarrow> int \<Rightarrow> int list \<Rightarrow> buffer \<times> int \<Rightarrow> error + buffer \<times> int" where
  "scan_row sem wid y [] (ins, cnt) = Inr (ins, cnt)"
| "scan_row sem wid y (x # xs) (ins, cnt) =
     (if x \<ge> int (sem_w sem) then Inr (ins, cnt)
      else
        (case py_index (length ins) y of Inl e \<Rightarrow> Inl e
         | Inr yi \<Rightarrow>
            (case py_index (length (ins ! yi)) x of Inl e \<Rightarrow> Inl e
             | Inr xi \<Rightarrow>
                if ins ! yi ! xi = - 1 \<and> pedestrian (sem_at sem yi xi)
                then scan_row sem wid y xs (assign ins yi xi wid, cnt + 1)
                else scan_row sem wid y xs (ins, cnt))))"

fun scan_rows :: "semantic \<Rightarrow> int \<Rightarrow> int list \<Rightarrow> int list \<Rightarrow> buffer \<times> int \<Rightarrow> error + buffer \<times> int" where
  "scan_rows sem wid [] xs st = Inr st"
| "scan_rows sem wid (y # ys) xs st =
     (if y \<ge> int (sem_h sem) then Inr st
      else
        (case scan_row sem wid y xs st of Inl e \<Rightarrow> Inl e
         | Inr st' \<Rightarrow> scan_rows sem wid ys xs st'))"

text \<open>
  What one frame changes: the instance buffer, the rectangles drawn on the image, and the
  lines written to gt.txt (a line is the list of its nine comma-separated fields).
\<close>

record frame_state =
  inst :: buffer
  drawn :: "rect list"
  gt :: "int list list"

definition gt_line :: "int \<Rightarrow> int \<Rightarrow> rect \<Rightarrow> int list" where
  "gt_line frame wid r =
     (case r of ((minx, miny), (maxx, maxy)) \<Rightarrow>
        [frame, wid, minx, miny, maxx - minx + 1, maxy - miny + 1, 1, 1, 1])"

definition visit :: "bool \<Rightarrow> int \<Rightarrow> semantic \<Rightarrow> walker \<Rightarrow> frame_state \<Rightarrow> error + frame_state" where
  "visit save frame sem w st =
     (case bb2d w of
        None \<Rightarrow> Inr st
      | Some ((minx, miny), (maxx, maxy)) \<Rightarrow>
         (let total = (maxx - minx + 1) * (maxy - miny + 1) in
          case scan_rows sem (walker_id w) [miny..maxy] [minx..maxx] (inst st, 0) of
            Inl e \<Rightarrow> Inl e
          | Inr (ins, cnt) \<Rightarrow>
             if total > 0 \<and> 10 * cnt < 2 * total then Inr (st\<lparr>inst := ins\<rparr>)
             else Inr (st\<lparr>inst := ins,
                         drawn := drawn st @ [((minx, miny), (maxx, maxy))],
                         gt := (if save
                                then gt st @ [gt_line frame (walker_id w) ((minx, miny), (maxx, maxy))]
                                else gt st)\<rparr>)))"

fun walkers_loop :: "bool \<Rightarrow> int \<Rightarrow> semantic \<Rightarrow> walker list \<Rightarrow> frame_state \<Rightarrow> error + frame_state" where
  "walkers_loop save frame sem [] st = Inr st"
| "walkers_loop save frame sem (w # ws) st =
     (case visit save frame sem w st of
        Inl e \<Rightarrow> Inl e
      | Inr st' \<Rightarrow> walkers_loop save frame sem ws st')"

text \<open>
  The body of a frame once the walkers are built: the sort by distance, a fresh buffer,
  and the loop. \<open>lines\<close> is what gt.txt holds so far.
\<close>

definition empty_buffer :: "semantic \<Rightarrow> buffer" where
  "empty_buffer sem = replicate (sem_h sem) (replicate (sem_w sem) (- 1))"

definition frame_start :: "semantic \<Rightarrow> int list list \<Rightarrow> frame_state" where
  "frame_start sem lines = \<lparr>inst = empty_buffer sem, drawn = [], gt = lines\<rparr>"

definition process_walkers ::
  "(walker list \<Rightarrow> walker list) \<Rightarrow> bool \<Rightarrow> int \<Rightarrow> semantic \<Rightarrow> walker list \<Rightarrow> int list list
   \<Rightarrow> error + frame_state" where
  "process_walkers unordered save frame sem walkers lines =
     walkers_loop save frame sem (sort_walkers unordered walkers) (frame_start sem lines)"

section \<open>Reading the log of a frame\<close>

text \<open>
  A Python string is the list of its code points. \<open>str.split()\<close> without argument gives
  the maximal runs of characters that are not whitespace; the whitespace characters are
  the code points for which \<open>str.isspace\<close> holds.
\<close>

type_synonym pystr = "nat list"

definition is_space :: "nat \<Rightarrow> bool" where
  "is_space c = (c \<in> set [0x09, 0x0A, 0x0B, 0x0C, 0x0D, 0x1C, 0x1D, 0x1E, 0x1F, 0x20,
                            0x85, 0xA0, 0x1680,
                            0x2000, 0x2001, 0x2002, 0x2003, 0x2004, 0x2005, 0x2006, 0x2007,
                            0x2008, 0x2009, 0x200A,
                            0x2028, 0x2029, 0x202F, 0x205F, 0x3000])"

fun split_from :: "pystr \<Rightarrow> pystr \<Rightarrow> pystr list" where
  "split_from cur [] = (if cur = [] then [] else [cur])"
| "split_from cur (c # cs) =
     (if is_space c then (if cur = [] then split_from [] cs else cur # split_from [] cs)
      else split_from (cur @ [c]) cs)"

definition split :: "pystr \<Rightarrow> pystr list" where
  "split s = split_from [] s"

text \<open>
  The open file is the list of the lines not yet read, each with its newline.
  \<open>readline\<close> returns the empty string at the end of the file.
\<close>

definition readline :: "pystr list \<Rightarrow> pystr \<times> pystr list" where
  "readline label = (case label of [] \<Rightarrow> ([], []) | line # rest \<Rightarrow> (line, rest))"

text \<open>
  The \<open>while True\<close> loop that builds the walkers. \<open>mk\<close> stands for the constructor call
  \<open>Walker(line_splited[1], line_splited[2:], cam)\<close>, which parses the numbers of the line
  and projects the box, and can raise. At the end of the file \<open>readline\<close> gives the empty
  string, which has no token, and the loop breaks.
\<close>

fun read_walkers :: "(pystr \<Rightarrow> pystr list \<Rightarrow> error + 'w) \<Rightarrow> pystr list \<Rightarrow> error + 'w list" where
  "read_walkers mk [] = Inr []"
| "read_walkers mk (line # rest) =
     (if line = [0x0A] then Inr []
      else
        (let line_splited = split line in
         if length line_splited < 10 then Inr []
         else
           (case mk (line_splited ! 1) (drop 2 line_splited) of
              Inl e \<Rightarrow> Inl e
            | Inr obj \<Rightarrow>
               (case read_walkers mk rest of
                  Inl e \<Rightarrow> Inl e
                | Inr walkers \<Rightarrow> Inr (obj # walkers)))))"

text \<open>
  The three header lines and the walkers. \<open>mk_cam\<close> stands for \<open>Camera(cam_setting, cam_info)\<close>.
\<close>

definition read_frame ::
  "(pystr list \<Rightarrow> pystr list \<Rightarrow> error + 'c) \<Rightarrow> ('c \<Rightarrow> pystr \<Rightarrow> pystr list \<Rightarrow> error + 'w)
   \<Rightarrow> pystr list \<Rightarrow> error + 'c \<times> 'w list" where
  "read_frame mk_cam mk label =
     (case readline label of (l1, label1) \<Rightarrow>
      case readline label1 of (l2, label2) \<Rightarrow>
      case readline label2 of (l3, label3) \<Rightarrow>
        (let vehicle_vel = split l1;
             cam_setting = tl (split l2);
             cam_info = tl (split l3)
         in case mk_cam cam_setting cam_info of
              Inl e \<Rightarrow> Inl e
            | Inr cam \<Rightarrow>
               (case read_walkers (mk cam) label3 of
                  Inl e \<Rightarrow> Inl e
                | Inr walkers \<Rightarrow> Inr (cam, walkers))))"

text \<open>The body of the loop over the frames, from the header lines to the last walker.\<close>

definition frame_body ::
  "(walker list \<Rightarrow> walker list) \<Rightarrow> bool \<Rightarrow> int \<Rightarrow> semantic
   \<Rightarrow> (pystr list \<Rightarrow> pystr list \<Rightarrow> error + 'c)
   \<Rightarrow> ('c \<Rightarrow> pystr \<Rightarrow> pystr list \<Rightarrow> error + walker) \<Rightarrow> pystr list \<Rightarrow> int list list
   \<Rightarrow> error + frame_state" where
  "frame_body unordered save frame sem mk_cam mk label lines =
     (case read_frame mk_cam mk label of
        Inl e \<Rightarrow> Inl e
      | Inr (cam, walkers) \<Rightarrow> process_walkers unordered save frame sem walkers lines)"

section \<open>Notions of the specification and example inputs\<close>

text \<open>The comparisons \<open>x <= 0\<close> and \<open>x < 0\<close> on a float64, as the specification uses them.\<close>

fun float_le0 :: "float64 \<Rightarrow> bool" where
  "float_le0 (Fin r) = (r \<le> 0)"
| "float_le0 NZero = True"
| "float_le0 PInf = False"
| "float_le0 NInf = True"
| "float_le0 NaN = False"

fun float_lt0 :: "float64 \<Rightarrow> bool" where
  "float_lt0 (Fin r) = (r < 0)"
| "float_lt0 NZero = False"
| "float_lt0 PInf = False"
| "float_lt0 NInf = True"
| "float_lt0 NaN = False"

text \<open>
  The axis-aligned rectangle over a list of pixel corners, in the words of the
  specification: the least and the greatest coordinate on each axis.
\<close>

definition spec_rect :: "(int \<times> int) list \<Rightarrow> rect" where
  "spec_rect points =
     ((Min (fst ` set points), Min (snd ` set points)),
      (Max (fst ` set points), Max (snd ` set points)))"

text \<open>
  Example inputs, for a camera at the origin with zero rotation, an image of 800 by 600
  and a field of view of 90 degrees (focal length 400, principal point (400, 300)); a
  corner (X, Y, Z) in sensor coordinates has the row (400 Y + 400 X, - 400 Z + 300 X, X).
  The rows are in the order of \<open>create_bb_points\<close>.

  \<open>behind_bbox\<close>: extent (0.3, 0.3, 0.9), location (-10, 0, 0): a pedestrian ten metres
  behind the camera.
\<close>

definition behind_bbox :: "row list" where
  "behind_bbox =
    [(Fin (- 3760), Fin (- 2550), Fin (- 97 / 10)), (Fin (- 4000), Fin (- 2730), Fin (- 103 / 10)),
     (Fin (- 4240), Fin (- 2730), Fin (- 103 / 10)), (Fin (- 4000), Fin (- 2550), Fin (- 97 / 10)),
     (Fin (- 3760), Fin (- 3270), Fin (- 97 / 10)), (Fin (- 4000), Fin (- 3450), Fin (- 103 / 10)),
     (Fin (- 4240), Fin (- 3450), Fin (- 103 / 10)), (Fin (- 4000), Fin (- 3270), Fin (- 97 / 10))]"

text \<open>
  \<open>zero_depth_bbox\<close>: extent (0.5, 0.5, 0.5), location (0.5, 5, -1): the rear face of the
  box lies in the plane of the camera, at depth 0.
\<close>

definition zero_depth_bbox :: "row list" where
  "zero_depth_bbox =
    [(Fin 2600, Fin 900, Fin 1), (Fin 2200, Fin 600, Fin 0),
     (Fin 1800, Fin 600, Fin 0), (Fin 2200, Fin 900, Fin 1),
     (Fin 2600, Fin 500, Fin 1), (Fin 2200, Fin 200, Fin 0),
     (Fin 1800, Fin 200, Fin 0), (Fin 2200, Fin 500, Fin 1)]"

text \<open>
  \<open>far_right_bbox\<close>: extent (0.005, 0.3, 5), location (100, 25000, -10): a thin, tall box
  far to the right of the optical axis, whose corners all project beyond pixel column
  100000.
\<close>

definition far_right_bbox :: "row list" where
  "far_right_bbox =
    [(Fin 10040122, Fin (360015 / 10), Fin (100005 / 1000)),
     (Fin 10040118, Fin (359985 / 10), Fin (99995 / 1000)),
     (Fin 10039878, Fin (359985 / 10), Fin (99995 / 1000)),
     (Fin 10039882, Fin (360015 / 10), Fin (100005 / 1000)),
     (Fin 10040122, Fin (320015 / 10), Fin (100005 / 1000)),
     (Fin 10040118, Fin (319985 / 10), Fin (99995 / 1000)),
     (Fin 10039878, Fin (319985 / 10), Fin (99995 / 1000)),
     (Fin 10039882, Fin (320015 / 10), Fin (100005 / 1000))]"

definition far_right_points :: "(int \<times> int) list" where
  "far_right_points =
     [(100396, 359), (100406, 360), (100403, 360), (100393, 359),
      (100396, 319), (100406, 320), (100403, 320), (100393, 319)]"

text \<open>
  \<open>corner_bbox\<close>: a flat box at depth 1 whose corners project to the pixel columns 0 and
  17 and the pixel rows 0 and 35, in the top left corner of the image.
\<close>

definition corner_bbox :: "row list" where
  "corner_bbox =
    [(Fin 17, Fin 35, Fin 1), (Fin 17, Fin 35, Fin 1), (Fin 0, Fin 35, Fin 1), (Fin 0, Fin 35, Fin 1),
     (Fin 17, Fin 0, Fin 1), (Fin 17, Fin 0, Fin 1), (Fin 0, Fin 0, Fin 1), (Fin 0, Fin 0, Fin 1)]"

text \<open>
  \<open>left_edge_bbox\<close>: the same flat box moved three pixels to the left, so that four of
  its corners project to the pixel column -3.
\<close>

definition left_edge_bbox :: "row list" where
  "left_edge_bbox =
    [(Fin 14, Fin 35, Fin 1), (Fin 14, Fin 35, Fin 1), (Fin (- 3), Fin 35, Fin 1), (Fin (- 3), Fin 35, Fin 1),
     (Fin 14, Fin 0, Fin 1), (Fin 14, Fin 0, Fin 1), (Fin (- 3), Fin 0, Fin 1), (Fin (- 3), Fin 0, Fin 1)]"

text \<open>
  \<open>nan_bbox\<close>: extent (0.5, 0, 0.45), location (0.5, 0, 0): the rear corners lie on the
  optical axis at depth 0, where the division is 0 / 0.
\<close>

definition nan_bbox :: "row list" where
  "nan_bbox =
    [(Fin 400, Fin 480, Fin 1), (Fin 0, Fin 180, Fin 0),
     (Fin 0, Fin 180, Fin 0), (Fin 400, Fin 480, Fin 1),
     (Fin 400, Fin 120, Fin 1), (Fin 0, Fin (- 180), Fin 0),
     (Fin 0, Fin (- 180), Fin 0), (Fin 400, Fin 120, Fin 1)]"

text \<open>
  \<open>mixed_bbox\<close>: extent (0.5, 1, 0.5), location (0.5, -0.5, -1): the rear face lies in
  the plane of the camera, and the front face reaches to the left of the image.
\<close>

definition mixed_bbox :: "row list" where
  "mixed_bbox =
    [(Fin 600, Fin 900, Fin 1), (Fin 200, Fin 600, Fin 0),
     (Fin (- 600), Fin 600, Fin 0), (Fin (- 200), Fin 900, Fin 1),
     (Fin 600, Fin 500, Fin 1), (Fin 200, Fin 200, Fin 0),
     (Fin (- 600), Fin 200, Fin 0), (Fin (- 200), Fin 500, Fin 1)]"

text \<open>
  The buffer has the shape of the semantic raster: \<open>sem_h\<close> rows of \<open>sem_w\<close> pixels.
\<close>

definition shape :: "semantic \<Rightarrow> buffer \<Rightarrow> bool" where
  "shape sem ins = (length ins = sem_h sem \<and> list_all (\<lambda>row. length row = sem_w sem) ins)"

text \<open>
  The quantities of the visibility test, in the words of the specification. The pixels
  (row, column) of a rectangle clamped to the bounds of the image; \<open>claimed\<close>, the number
  of them that are unassigned in the buffer and pedestrian in the semantic raster; and
  \<open>total\<close>, the area of the rectangle before clamping.
\<close>

definition clamped_pixels :: "semantic \<Rightarrow> rect \<Rightarrow> (int \<times> int) list" where
  "clamped_pixels sem r =
     (case r of ((minx, miny), (maxx, maxy)) \<Rightarrow>
        List.product [max 0 miny..min maxy (int (sem_h sem) - 1)]
                     [max 0 minx..min maxx (int (sem_w sem) - 1)])"

definition claimable :: "semantic \<Rightarrow> buffer \<Rightarrow> int \<times> int \<Rightarrow> bool" where
  "claimable sem ins p =
     (case p of (y, x) \<Rightarrow> ins ! nat y ! nat x = - 1 \<and> pedestrian (sem_at sem (nat y) (nat x)))"

definition claimed :: "semantic \<Rightarrow> buffer \<Rightarrow> rect \<Rightarrow> int" where
  "claimed sem ins r = int (length (filter (claimable sem ins) (clamped_pixels sem r)))"

definition total :: "rect \<Rightarrow> int" where
  "total r = (case r of ((minx, miny), (maxx, maxy)) \<Rightarrow> (maxx - minx + 1) * (maxy - miny + 1))"

text \<open>
  A small frame: a semantic raster of two rows and two columns whose left column is
  pedestrian, the camera at the origin, and walkers whose box projects to the rectangle
  (0, 0)-(17, 35), one metre, two metres and three metres ahead.
\<close>

definition sem2 :: semantic where
  "sem2 = \<lparr>sem_h = 2, sem_w = 2, sem_at = (\<lambda>y x. if x = 0 then (60, 20, 220) else (0, 0, 0))\<rparr>"

definition origin :: loc where
  "origin = \<lparr>loc_x = Fin 0, loc_y = Fin 0, loc_z = Fin 0\<rparr>"

definition ahead :: "real \<Rightarrow> loc" where
  "ahead m = \<lparr>loc_x = Fin m, loc_y = Fin 0, loc_z = Fin 0\<rparr>"

definition corner_walker :: "int \<Rightarrow> real \<Rightarrow> walker" where
  "corner_walker i m =
     \<lparr>walker_id = i, location = ahead m, bb2d = Some ((0, 0), (17, 35)), dist = Fin (m * m)\<rparr>"

text \<open>
  A raster of eight rows and eighteen columns that is pedestrian everywhere, and the
  same raster with one pixel of another class. \<open>wide_bbox\<close> is the flat box at depth 1
  whose corners project to the columns 0 and 19 and the rows 0 and 35: its rectangle has
  720 pixels, of which the raster covers 144, which is a fifth.
\<close>

definition sem_wide :: semantic where
  "sem_wide = \<lparr>sem_h = 8, sem_w = 18, sem_at = (\<lambda>y x. (60, 20, 220))\<rparr>"

definition sem_below :: semantic where
  "sem_below = \<lparr>sem_h = 8, sem_w = 18,
                 sem_at = (\<lambda>y x. if y = 0 \<and> x = 0 then (0, 0, 0) else (60, 20, 220))\<rparr>"

definition wide_bbox :: "row list" where
  "wide_bbox =
    [(Fin 19, Fin 35, Fin 1), (Fin 19, Fin 35, Fin 1), (Fin 0, Fin 35, Fin 1), (Fin 0, Fin 35, Fin 1),
     (Fin 19, Fin 0, Fin 1), (Fin 19, Fin 0, Fin 1), (Fin 0, Fin 0, Fin 1), (Fin 0, Fin 0, Fin 1)]"

definition wide_walker :: "int \<Rightarrow> real \<Rightarrow> walker" where
  "wide_walker i m =
     \<lparr>walker_id = i, location = ahead m, bb2d = Some ((0, 0), (19, 35)), dist = Fin (m * m)\<rparr>"









text \<open>
  A log of one frame, as the code points of its lines. The camera has a height of 600, a
  width of 800 and a field of view of 90 degrees, which gives the focal length 400 and
  the centre (400, 300); it stands at the origin and is not rotated. The line of walker
  7 has the extent (0.25, 0.25, 1), no offset of the box, the location (10, 0, 0) and no
  rotation. With these numbers the sensor coordinates of a corner are its coordinates in
  the box plus (10, 0, 0), and \<open>ahead_bbox\<close> holds, in the order of \<open>create_bb_points\<close>,
  the rows (400 y + 400 x, - 400 z + 300 x, x); the pixel coordinates fall between
  389.7 and 410.3 and between 258.9 and 341.1, away from the integers. After the line of
  walker 7 come a line of four tokens and a full line of walker 5.
\<close>

definition codes :: "string \<Rightarrow> pystr" where
  "codes s = map of_char s"

definition log_header :: "pystr list" where
  "log_header = [codes ''0.0 0.0 0.0'' @ [0x0A], codes ''CAM 600 800 90'' @ [0x0A],
                 codes ''1 0 0 0 0 0 0'' @ [0x0A]]"

definition line_walker7 :: pystr where
  "line_walker7 = codes ''WALKER 7 0.25 0.25 1 0 0 0 10 0 0 0 0 0'' @ [0x0A]"

definition line_short :: pystr where
  "line_short = codes ''WALKER 5 0.25 0.25'' @ [0x0A]"

definition line_walker5 :: pystr where
  "line_walker5 = codes ''WALKER 5 0.25 0.25 1 0 0 0 20 0 0 0 0 0'' @ [0x0A]"

definition ahead_bbox :: "row list" where
  "ahead_bbox =
    [(Fin 4200, Fin 3475, Fin (41 / 4)), (Fin 4000, Fin 3325, Fin (39 / 4)),
     (Fin 3800, Fin 3325, Fin (39 / 4)), (Fin 4000, Fin 3475, Fin (41 / 4)),
     (Fin 4200, Fin 2675, Fin (41 / 4)), (Fin 4000, Fin 2525, Fin (39 / 4)),
     (Fin 3800, Fin 2525, Fin (39 / 4)), (Fin 4000, Fin 2675, Fin (41 / 4))]"

definition ahead_walker :: walker where
  "ahead_walker =
     \<lparr>walker_id = 7, location = ahead 10, bb2d = Some ((389, 258), (410, 341)), dist = Fin 100\<rparr>"

text \<open>
  The two constructors on this log: \<open>log_camera\<close> is \<open>Camera\<close> at the tokens of its
  second and third line, \<open>log_walker\<close> is \<open>Walker\<close> at the tokens of the line of walker 7,
  the one line from which the loop builds a walker. They are given at these tokens only.
\<close>

definition log_camera :: "pystr list \<Rightarrow> pystr list \<Rightarrow> error + loc" where
  "log_camera cam_setting cam_info =
     the (map_of [((map codes [''600'', ''800'', ''90''],
                    map codes [''0'', ''0'', ''0'', ''0'', ''0'', ''0'']), Inr origin)]
            (cam_setting, cam_info))"

definition log_walker :: "loc \<Rightarrow> pystr \<Rightarrow> pystr list \<Rightarrow> error + walker" where
  "log_walker cam i info =
     the (map_of [((codes ''7'',
                    map codes [''0.25'', ''0.25'', ''1'', ''0'', ''0'', ''0'',
                               ''10'', ''0'', ''0'', ''0'', ''0'', ''0'']),
                   Walker exact cam 7 (ahead 10) ahead_bbox)]
            (i, info))"

text \<open>A semantic raster of the size of the camera image that is pedestrian everywhere.\<close>

definition sem_full :: semantic where
  "sem_full = \<lparr>sem_h = 600, sem_w = 800, sem_at = (\<lambda>y x. (60, 20, 220))\<rparr>"
section \<open>Properties of the projection\<close>

lemmas eval_defs =
  get_2d_bounding_box_def get_bounding_box_def perspective_def np_divide_def exact_def
  depth_def bounds_def

lemma py_int_ge0: "float_ge0 u \<Longrightarrow> py_int u = Inr x \<Longrightarrow> 0 \<le> x"
  by (cases u) auto

lemma py_int_error: "float_ge0 u \<Longrightarrow> (py_int u = Inl e) = (u = PInf \<and> e = OverflowError)"
  by (cases u) auto

lemma float_lt0_not_ge0: "float_lt0 u \<Longrightarrow> \<not> float_ge0 u"
  by (cases u) auto

lemma collect_points_length: "collect_points bb = Inr ps \<Longrightarrow> length ps \<le> length bb"
  by (induction bb arbitrary: ps rule: collect_points.induct)
     (auto split: if_splits sum.splits)

lemma collect_points_all:
  "collect_points bb = Inr ps \<Longrightarrow> length ps = length bb \<Longrightarrow>
   list_all (\<lambda>(u, v, d). float_ge0 u \<and> float_ge0 v) bb"
  by (induction bb arbitrary: ps rule: collect_points.induct)
     (auto split: if_splits sum.splits dest: collect_points_length)

lemma collect_points_inside:
  "collect_points bb = Inr ps \<Longrightarrow> length ps = length bb \<Longrightarrow> (u, v, d) \<in> set bb \<Longrightarrow>
   \<exists>x y. py_int u = Inr x \<and> py_int v = Inr y \<and> (x, y) \<in> set ps"
proof (induction bb arbitrary: ps)
  case Nil
  then show ?case by simp
next
  case (Cons r bb)
  obtain u' v' d' where r: "r = (u', v', d')" by (cases r)
  from Cons.prems(1,2) r obtain x' y' ps' where
    hd: "py_int u' = Inr x'" "py_int v' = Inr y'" and tl: "collect_points bb = Inr ps'"
    and ps: "ps = (x', y') # ps'"
    by (auto split: if_splits sum.splits dest: collect_points_length)
  show ?case
  proof (cases "(u, v, d) = r")
    case True
    with r hd ps show ?thesis by auto
  next
    case False
    with Cons.prems(3) have "(u, v, d) \<in> set bb" by simp
    from Cons.IH [OF tl _ this] Cons.prems(2) ps show ?thesis by auto
  qed
qed

lemma collect_points_nonneg:
  "collect_points bb = Inr ps \<Longrightarrow> (x, y) \<in> set ps \<Longrightarrow> 0 \<le> x \<and> 0 \<le> y"
  by (induction bb arbitrary: ps rule: collect_points.induct)
     (auto split: if_splits sum.splits dest: py_int_ge0)

lemma collect_points_overflow: "collect_points bb = Inl e \<Longrightarrow> e = OverflowError"
  by (induction bb rule: collect_points.induct)
     (auto split: if_splits sum.splits simp: py_int_error)

lemma Min_insert_min: "finite S \<Longrightarrow> Min (insert (min x a) S) = Min (insert a (insert x S))" for a x :: int
  by (cases "S = {}") (auto simp: min.assoc min.commute min.left_commute)

lemma Max_insert_max: "finite S \<Longrightarrow> Max (insert (max x a) S) = Max (insert a (insert x S))" for a x :: int
  by (cases "S = {}") (auto simp: max.assoc max.commute max.left_commute)

lemma update_bounds_min_max:
  "update_bounds (x, y) (a, b, c, d) = (min x a, min y b, max x c, max y d)"
  by (auto simp: min_def max_def)

lemma fold_update_bounds:
  "fold update_bounds ps (a, b, c, d) =
     (Min (insert a (fst ` set ps)), Min (insert b (snd ` set ps)),
      Max (insert c (fst ` set ps)), Max (insert d (snd ` set ps)))"
proof (induction ps arbitrary: a b c d)
  case Nil
  then show ?case by simp
next
  case (Cons p ps)
  obtain x y where p: "p = (x, y)" by (cases p)
  show ?case
    unfolding p fold_Cons comp_apply update_bounds_min_max Cons.IH
    by (simp add: Min_insert_min Max_insert_max)
qed

lemma bounds_contain:
  assumes "bounds ps = (min_x, min_y, max_x, max_y)" and "(x, y) \<in> set ps"
  shows "min_x \<le> x \<and> x \<le> max_x \<and> min_y \<le> y \<and> y \<le> max_y"
proof -
  have "x \<in> fst ` set ps" "y \<in> snd ` set ps"
    using assms(2) by (force)+
  then show ?thesis
    using assms(1) unfolding bounds_def fold_update_bounds
    by (auto intro!: Min_le Max_ge)
qed

lemma bounds_min_nonneg:
  assumes "bounds ps = (min_x, min_y, max_x, max_y)" and "\<forall>(x, y) \<in> set ps. 0 \<le> x \<and> 0 \<le> y"
  shows "0 \<le> min_x \<and> 0 \<le> min_y"
proof -
  have "\<forall>a \<in> insert 100000 (fst ` set ps). (0::int) \<le> a" "\<forall>a \<in> insert 100000 (snd ` set ps). (0::int) \<le> a"
    using assms(2) by auto
  then show ?thesis
    using assms(1) unfolding bounds_def fold_update_bounds
    by (auto simp del: Min_insert)
qed

text \<open>What a returned rectangle tells about the call.\<close>

lemma get_2d_bounding_box_Some:
  assumes "get_2d_bounding_box rnd bbox = Inr (Some ((min_x, min_y), (max_x, max_y)))"
  shows "\<exists>ps. get_bounding_box rnd bbox = Some (perspective rnd bbox)
      \<and> collect_points (perspective rnd bbox) = Inr ps \<and> length ps = 8
      \<and> bounds ps = (min_x, min_y, max_x, max_y)
      \<and> 17 \<le> max_x - min_x \<and> 35 \<le> max_y - min_y"
  using assms unfolding get_2d_bounding_box_def get_bounding_box_def Let_def
  by (auto split: option.splits sum.splits if_splits prod.splits)

lemma rect_shape:
  assumes "get_2d_bounding_box rnd bbox = Inr (Some ((min_x, min_y), (max_x, max_y)))"
  shows "0 \<le> min_x \<and> 0 \<le> min_y \<and> 17 \<le> max_x - min_x \<and> 35 \<le> max_y - min_y"
proof -
  from get_2d_bounding_box_Some [OF assms] obtain ps where
    ps: "collect_points (perspective rnd bbox) = Inr ps" "bounds ps = (min_x, min_y, max_x, max_y)"
    and sz: "17 \<le> max_x - min_x" "35 \<le> max_y - min_y" by blast
  have "\<forall>(x, y) \<in> set ps. 0 \<le> x \<and> 0 \<le> y"
    using collect_points_nonneg [OF ps(1)] by auto
  from bounds_min_nonneg [OF ps(2) this] sz show ?thesis by simp
qed

lemma collect_points_raises:
  "(\<exists>e. collect_points bb = Inl e) =
   (\<exists>(u, v, d) \<in> set bb. float_ge0 u \<and> float_ge0 v \<and> (u = PInf \<or> v = PInf))"
proof (induction bb)
  case Nil
  then show ?case by simp
next
  case (Cons r bb)
  obtain u v d where r: "r = (u, v, d)" by (cases r)
  show ?case
  proof (cases "float_ge0 u \<and> float_ge0 v")
    case False
    with Cons r show ?thesis by auto
  next
    case True
    show ?thesis
    proof (cases "u = PInf \<or> v = PInf")
      case True
      with \<open>float_ge0 u \<and> float_ge0 v\<close> r show ?thesis
        by (cases u; cases v) (auto split: sum.splits)
    next
      case False
      with True obtain x y where "py_int u = Inr x" "py_int v = Inr y"
        by (cases u; cases v) auto
      with True False Cons r show ?thesis
        by (auto split: sum.splits)
    qed
  qed
qed

lemma np_divide_by_zero:
  "is_zero c \<Longrightarrow> np_divide rnd a c = PInf \<or> np_divide rnd a c = NInf \<or> np_divide rnd a c = NaN"
  by (cases c; cases a) (auto simp: np_divide_def)

lemma get_2d_bounding_box_raises:
  "(\<exists>e. get_2d_bounding_box rnd bbox = Inl e) =
   (get_bounding_box rnd bbox \<noteq> None \<and> (\<exists>e. collect_points (perspective rnd bbox) = Inl e))"
  unfolding get_2d_bounding_box_def get_bounding_box_def Let_def
  by (auto split: option.splits sum.splits if_splits prod.splits)

lemma get_2d_bounding_box_overflow:
  "get_2d_bounding_box rnd bbox = Inl e \<Longrightarrow> e = OverflowError"
  unfolding get_2d_bounding_box_def get_bounding_box_def Let_def
  by (auto split: option.splits sum.splits if_splits prod.splits dest: collect_points_overflow)

section \<open>The depth test (C1)\<close>

text \<open>The depth test rejects exactly when some depth is not \<open>> 0\<close> and some depth is not \<open>< 60\<close>.\<close>

lemma float_le0_lt60: "float_le0 d \<Longrightarrow> float_lt60 d"
  by (cases d) auto

lemma depth_perspective: "map depth (perspective rnd bbox) = map depth bbox"
  by (induction bbox) (auto simp: perspective_def depth_def)

lemma get_bounding_box_None:
  "(get_bounding_box rnd bbox = None)
   = ((\<exists>r \<in> set bbox. \<not> float_gt0 (depth r)) \<and> (\<exists>r \<in> set bbox. \<not> float_lt60 (depth r)))"
proof -
  have "list_all P (map depth (perspective rnd bbox)) = (\<forall>r \<in> set bbox. P (depth r))" for P
    unfolding depth_perspective by (simp add: list_all_iff)
  then show ?thesis
    by (auto simp: get_bounding_box_def Let_def)
qed

lemma behind_camera_passes:
  assumes "\<forall>r \<in> set bbox. float_le0 (depth r)"
  shows "get_bounding_box rnd bbox = Some (perspective rnd bbox)"
proof -
  from assms have "\<forall>r \<in> set bbox. float_lt60 (depth r)"
    by (blast intro: float_le0_lt60)
  then have "get_bounding_box rnd bbox \<noteq> None"
    unfolding get_bounding_box_None by blast
  then show ?thesis
    by (simp add: get_bounding_box_def Let_def split: if_splits)
qed

text \<open>
  C1. The claim: when all eight projected corner depths are \<open><= 0\<close>,
  \<open>get_bounding_box\<close> rejects the box, so that there are no projected corners and no 2D
  rectangle. The test of the source rejects only when some depth is not \<open>> 0\<close> and some
  depth is not \<open>< 60\<close>; depths that are all \<open><= 0\<close> are all \<open>< 60\<close>, so the box passes.
  No box that lies behind the camera is rejected (\<open>behind_camera_passes\<close>). For the
  pedestrian ten metres behind the camera every depth is negative, the projected
  corners are returned, and \<open>get_2d_bounding_box\<close> goes on to a rectangle of 26 by 76
  pixels around the image centre.
\<close>

theorem C1_behind_camera_not_rejected:
  "list_all (\<lambda>r. float_le0 (depth r)) (perspective exact behind_bbox)
   \<and> get_bounding_box exact behind_bbox = Some (perspective exact behind_bbox)
   \<and> get_2d_bounding_box exact behind_bbox = Inr (Some ((387, 262), (412, 337)))"
  by (simp add: eval_defs behind_bbox_def)

section \<open>The size test (C3)\<close>

text \<open>
  The loop over the points computes the least coordinates capped at 100000 and the
  greatest coordinates. When some corner has a column and some corner a row of at most
  100000, the result is the rectangle over the corners, tested as the claim says.
\<close>

lemma bounds_spec:
  assumes "ps \<noteq> []" and "\<forall>(x, y) \<in> set ps. 0 \<le> x \<and> 0 \<le> y"
  shows "bounds ps = (min 100000 (Min (fst ` set ps)), min 100000 (Min (snd ` set ps)),
                      Max (fst ` set ps), Max (snd ` set ps))"
proof -
  have ne: "fst ` set ps \<noteq> {}" "snd ` set ps \<noteq> {}" using assms(1) by simp_all
  obtain p where p: "p \<in> set ps" using assms(1) by (cases ps) auto
  with assms(2) have "0 \<le> fst p" "0 \<le> snd p" by auto
  moreover have "fst p \<le> Max (fst ` set ps)" "snd p \<le> Max (snd ` set ps)"
    using p by simp_all
  ultimately have "0 \<le> Max (fst ` set ps)" "0 \<le> Max (snd ` set ps)"
    by linarith+
  then show ?thesis
    unfolding bounds_def fold_update_bounds using ne
    by (simp add: max_def)
qed

lemma size_test_below_sentinel:
  assumes "get_bounding_box rnd bbox = Some bb" and "collect_points bb = Inr ps"
    and "length ps = 8"
    and "\<exists>(x, y) \<in> set ps. x \<le> 100000" and "\<exists>(x, y) \<in> set ps. y \<le> 100000"
  shows "get_2d_bounding_box rnd bbox =
           (case spec_rect ps of ((min_x, min_y), (max_x, max_y)) \<Rightarrow>
              if max_x - min_x < 17 \<or> max_y - min_y < 35 then Inr None
              else Inr (Some (spec_rect ps)))"
proof -
  have ne: "ps \<noteq> []" using assms(3) by auto
  have nn: "\<forall>(x, y) \<in> set ps. 0 \<le> x \<and> 0 \<le> y"
    using collect_points_nonneg [OF assms(2)] by auto
  have "Min (fst ` set ps) \<le> 100000" "Min (snd ` set ps) \<le> 100000"
    using assms(4,5) ne by (force simp: Min_le_iff)+
  with bounds_spec [OF ne nn] have
    "bounds ps = (Min (fst ` set ps), Min (snd ` set ps), Max (fst ` set ps), Max (snd ` set ps))"
    by (simp add: min_def)
  with assms(1,2,3) show ?thesis
    by (simp add: get_2d_bounding_box_def spec_rect_def)
qed

text \<open>
  C3. The claim: for a box that passes the depth and corner tests, the axis-aligned
  rectangle over its eight pixel corners is rejected exactly when its width is below 17
  or its height below 35. The source starts the running minimum at 100000, so when every
  corner lies beyond pixel column 100000 the minimum stays at 100000 instead of the
  leftmost corner. For \<open>far_right_bbox\<close> the rectangle over the corners spans the columns
  100393 to 100406, a width of 13, which the claim rejects; the source measures the width
  from column 100000 and returns a rectangle.
\<close>

theorem C3_sentinel_widens_rectangle:
  "get_bounding_box exact far_right_bbox = Some (perspective exact far_right_bbox)
   \<and> collect_points (perspective exact far_right_bbox) = Inr far_right_points
   \<and> spec_rect far_right_points = ((100393, 319), (100406, 360))
   \<and> get_2d_bounding_box exact far_right_bbox = Inr (Some ((100000, 319), (100406, 360)))"
  by (simp add: eval_defs far_right_bbox_def far_right_points_def spec_rect_def)

section \<open>The corner test (C4)\<close>

text \<open>
  A rectangle is returned only if all eight corners have pixel coordinates \<open>>= 0\<close>, and
  then every corner, converted to integers, lies inside the returned rectangle: it is
  never the rectangle of a part of the corners, and it is not clipped. With a corner
  that has a negative coordinate the call returns None, except when the depth test
  lets the box through and some corner has both coordinates \<open>>= 0\<close> and one of them
  \<open>+inf\<close>: then it raises OverflowError.
\<close>

lemma rectangle_needs_all_corners:
  assumes "length bbox = 8"
  shows "(get_2d_bounding_box rnd bbox = Inr (Some ((min_x, min_y), (max_x, max_y))) \<longrightarrow>
            (\<forall>(u, v, d) \<in> set (perspective rnd bbox).
               float_ge0 u \<and> float_ge0 v \<and>
               (\<exists>x y. py_int u = Inr x \<and> py_int v = Inr y
                      \<and> min_x \<le> x \<and> x \<le> max_x \<and> min_y \<le> y \<and> y \<le> max_y)))
       \<and> ((\<exists>(u, v, d) \<in> set (perspective rnd bbox). float_lt0 u \<or> float_lt0 v) \<longrightarrow>
            (if get_bounding_box rnd bbox \<noteq> None
                \<and> (\<exists>(u, v, d) \<in> set (perspective rnd bbox).
                      float_ge0 u \<and> float_ge0 v \<and> (u = PInf \<or> v = PInf))
             then get_2d_bounding_box rnd bbox = Inl OverflowError
             else get_2d_bounding_box rnd bbox = Inr None))"
proof (intro conjI impI)
  assume r: "get_2d_bounding_box rnd bbox = Inr (Some ((min_x, min_y), (max_x, max_y)))"
  from get_2d_bounding_box_Some [OF r] obtain ps where
    ps: "collect_points (perspective rnd bbox) = Inr ps" "length ps = 8"
        "bounds ps = (min_x, min_y, max_x, max_y)" by blast
  have len: "length ps = length (perspective rnd bbox)"
    using ps(2) assms by (simp add: perspective_def)
  show "\<forall>(u, v, d) \<in> set (perspective rnd bbox).
               float_ge0 u \<and> float_ge0 v \<and>
               (\<exists>x y. py_int u = Inr x \<and> py_int v = Inr y
                      \<and> min_x \<le> x \<and> x \<le> max_x \<and> min_y \<le> y \<and> y \<le> max_y)"
  proof (clarify, intro conjI)
    fix u v d assume mem: "(u, v, d) \<in> set (perspective rnd bbox)"
    from collect_points_all [OF ps(1) len] mem show "float_ge0 u" "float_ge0 v"
      by (auto simp: list_all_iff)
    from collect_points_inside [OF ps(1) len mem] obtain x y where
      xy: "py_int u = Inr x" "py_int v = Inr y" "(x, y) \<in> set ps" by blast
    from bounds_contain [OF ps(3) xy(3)] xy(1,2)
    show "\<exists>x y. py_int u = Inr x \<and> py_int v = Inr y
                      \<and> min_x \<le> x \<and> x \<le> max_x \<and> min_y \<le> y \<and> y \<le> max_y"
      by blast
  qed
next
  assume neg: "\<exists>(u, v, d) \<in> set (perspective rnd bbox). float_lt0 u \<or> float_lt0 v"
  then obtain u v d where mem: "(u, v, d) \<in> set (perspective rnd bbox)"
    and lt: "float_lt0 u \<or> float_lt0 v" by blast
  have len8: "length (perspective rnd bbox) = 8"
    using assms by (simp add: perspective_def)
  let ?raising = "get_bounding_box rnd bbox \<noteq> None
                \<and> (\<exists>(u, v, d) \<in> set (perspective rnd bbox).
                      float_ge0 u \<and> float_ge0 v \<and> (u = PInf \<or> v = PInf))"
  have raises: "(\<exists>e. get_2d_bounding_box rnd bbox = Inl e) = ?raising"
    unfolding get_2d_bounding_box_raises collect_points_raises ..
  show "if ?raising then get_2d_bounding_box rnd bbox = Inl OverflowError
        else get_2d_bounding_box rnd bbox = Inr None"
  proof (cases ?raising)
    case True
    with raises obtain e where e: "get_2d_bounding_box rnd bbox = Inl e" by blast
    from get_2d_bounding_box_overflow [OF e] e True show ?thesis by simp
  next
    case False
    with raises have no: "\<not> (\<exists>e. get_2d_bounding_box rnd bbox = Inl e)" by blast
    have "get_2d_bounding_box rnd bbox = Inr None"
    proof (cases "get_2d_bounding_box rnd bbox")
      case (Inl e)
      with no show ?thesis by blast
    next
      case (Inr ro)
      show ?thesis
      proof (cases ro)
        case None
        with Inr show ?thesis by simp
      next
        case (Some r)
        obtain a b c e where "r = ((a, b), (c, e))" by (cases r) auto
        with Some Inr have "get_2d_bounding_box rnd bbox = Inr (Some ((a, b), (c, e)))" by simp
        from get_2d_bounding_box_Some [OF this] obtain ps where
          ps: "collect_points (perspective rnd bbox) = Inr ps" "length ps = 8" by blast
        from collect_points_all [OF ps(1)] ps(2) len8 mem
        have "float_ge0 u \<and> float_ge0 v" by (auto simp: list_all_iff)
        with lt float_lt0_not_ge0 show ?thesis by blast
      qed
    qed
    with False show ?thesis by simp
  qed
qed

text \<open>
  A corner at pixel (0, 0) is accepted; a box with four corners at column -3 is
  discarded.
\<close>

lemma corner_at_zero_accepted:
  "(Fin 0, Fin 0, Fin 1) \<in> set (perspective exact corner_bbox)
   \<and> get_2d_bounding_box exact corner_bbox = Inr (Some ((0, 0), (17, 35)))
   \<and> (Fin (- 3), Fin 0, Fin 1) \<in> set (perspective exact left_edge_bbox)
   \<and> get_2d_bounding_box exact left_edge_bbox = Inr None"
  by (simp add: eval_defs corner_bbox_def left_edge_bbox_def)

text \<open>
  C4. The claim: a rectangle is produced only if all eight corners project to
  non-negative pixel coordinates, and if even one corner has a negative coordinate the
  whole box is discarded. The second part fails for \<open>mixed_bbox\<close>: its fourth corner
  projects to column -200, so the box is to be discarded, but its second corner has
  depth 0 and positive numerators, both of its pixel coordinates are \<open>+inf\<close>, they pass
  the test \<open>>= 0\<close>, and \<open>int\<close> raises OverflowError: the box is not discarded, the call
  does not return. The test \<open>>= 0\<close> drops every other corner that cannot be drawn
  (negative, \<open>-inf\<close>, NaN) and misses \<open>+inf\<close>.
\<close>

theorem C4_negative_corner_raises:
  "length mixed_bbox = 8
   \<and> perspective exact mixed_bbox ! 3 = (Fin (- 200), Fin 900, Fin 1)
   \<and> float_lt0 (Fin (- 200))
   \<and> perspective exact mixed_bbox ! 1 = (PInf, PInf, Fin 0)
   \<and> get_2d_bounding_box exact mixed_bbox = Inl OverflowError"
  by (simp add: eval_defs mixed_bbox_def)

section \<open>Degenerate arithmetic (C9)\<close>

text \<open>
  The division by a zero depth does not raise, it gives an infinity or NaN.
  \<open>get_2d_bounding_box\<close> raises exactly when the depth test lets the box through and some
  corner has both pixel coordinates \<open>>= 0\<close> and one of them \<open>+inf\<close>, and what it raises
  is OverflowError. With NaN or \<open>-inf\<close> among the pixel values and no such corner it
  returns a rectangle or None, as for \<open>nan_bbox\<close>.
\<close>

lemma only_positive_infinity_raises:
  "(is_zero c \<longrightarrow> np_divide rnd a c = PInf \<or> np_divide rnd a c = NInf \<or> np_divide rnd a c = NaN)
   \<and> ((\<exists>e. get_2d_bounding_box rnd bbox = Inl e) =
        (get_bounding_box rnd bbox \<noteq> None
         \<and> (\<exists>(u, v, d) \<in> set (perspective rnd bbox).
               float_ge0 u \<and> float_ge0 v \<and> (u = PInf \<or> v = PInf))))
   \<and> (get_2d_bounding_box rnd bbox = Inl e \<longrightarrow> e = OverflowError)"
  using np_divide_by_zero [of c rnd a] get_2d_bounding_box_raises [of rnd bbox]
    collect_points_raises [of "perspective rnd bbox"] get_2d_bounding_box_overflow [of rnd bbox e]
  by blast

lemma nan_corner_rejected:
  "perspective exact nan_bbox ! 1 = (NaN, PInf, Fin 0)
   \<and> perspective exact nan_bbox ! 5 = (NaN, NInf, Fin 0)
   \<and> get_2d_bounding_box exact nan_bbox = Inr None"
  by (simp add: eval_defs nan_bbox_def)

text \<open>
  C9. The claim: degenerate arithmetic during the projection, among it the division by a
  zero depth and the conversion of the resulting non-finite pixel values to integers,
  never leaves the projection as a runtime failure; at worst the actor is rejected.
  This fails for \<open>zero_depth_bbox\<close>: the second corner has depth 0 and positive
  numerators, its pixel coordinates are both \<open>+inf\<close>, they pass the test \<open>>= 0\<close>, and
  \<open>int\<close> raises OverflowError, which nothing catches. The other non-finite values end in
  a rejection: the test \<open>>= 0\<close> drops NaN and \<open>-inf\<close>, and \<open>+inf\<close> is the case it misses.
\<close>

theorem C9_zero_depth_raises:
  "perspective exact zero_depth_bbox ! 1 = (PInf, PInf, Fin 0)
   \<and> get_2d_bounding_box exact zero_depth_bbox = Inl OverflowError"
  by (simp add: eval_defs zero_depth_bbox_def)

section \<open>Invariants of the pixel scan\<close>

lemma py_index_bound: "py_index n i = Inr k \<Longrightarrow> k < n"
  by (auto simp: py_index_def split: if_splits)

lemma py_index_nonneg: "0 \<le> i \<Longrightarrow> i < int n \<Longrightarrow> py_index n i = Inr (nat i)"
  by (simp add: py_index_def)

lemma assign_length [simp]: "length (assign ins yi xi wid) = length ins"
  by (simp add: assign_def)

lemma assign_row_length [simp]:
  "length (assign ins yi xi wid ! y) = length (ins ! y)"
  by (cases "yi < length ins"; cases "y = yi") (simp_all add: assign_def list_update_beyond)

lemma assign_nth:
  "yi < length ins \<Longrightarrow> xi < length (ins ! yi) \<Longrightarrow>
   assign ins yi xi wid ! y ! x = (if y = yi \<and> x = xi then wid else ins ! y ! x)"
  by (cases "y = yi"; cases "x = xi") (simp_all add: assign_def)

lemma scan_row_shape:
  "scan_row sem wid y xs (ins, cnt) = Inr (ins', cnt') \<Longrightarrow>
   length ins' = length ins \<and> (\<forall>k. length (ins' ! k) = length (ins ! k))"
proof (induction xs arbitrary: ins cnt)
  case Nil
  then show ?case by simp
next
  case (Cons x xs)
  show ?case
  proof (cases "x \<ge> int (sem_w sem)")
    case True
    with Cons.prems show ?thesis by simp
  next
    case False
    with Cons.prems obtain yi xi where
      yi: "py_index (length ins) y = Inr yi" and xi: "py_index (length (ins ! yi)) x = Inr xi"
      by (auto split: sum.splits)
    show ?thesis
    proof (cases "ins ! yi ! xi = - 1 \<and> pedestrian (sem_at sem yi xi)")
      case True
      with Cons.prems False yi xi
      have "scan_row sem wid y xs (assign ins yi xi wid, cnt + 1) = Inr (ins', cnt')"
        by simp
      from Cons.IH [OF this] show ?thesis by simp
    next
      case no: False
      with Cons.prems False yi xi
      have "scan_row sem wid y xs (ins, cnt) = Inr (ins', cnt')"
        by auto
      from Cons.IH [OF this] show ?thesis .
    qed
  qed
qed

lemma scan_row_change:
  "scan_row sem wid y xs (ins, cnt) = Inr (ins', cnt') \<Longrightarrow>
   yi < length ins \<Longrightarrow> xi < length (ins ! yi) \<Longrightarrow> ins' ! yi ! xi \<noteq> ins ! yi ! xi \<Longrightarrow>
   ins ! yi ! xi = - 1 \<and> pedestrian (sem_at sem yi xi) \<and> ins' ! yi ! xi = wid"
proof (induction xs arbitrary: ins cnt)
  case Nil
  then show ?case by simp
next
  case (Cons x xs)
  show ?case
  proof (cases "x \<ge> int (sem_w sem)")
    case True
    with Cons.prems show ?thesis by simp
  next
    case False
    with Cons.prems obtain y0 x0 where
      y0: "py_index (length ins) y = Inr y0" and x0: "py_index (length (ins ! y0)) x = Inr x0"
      by (auto split: sum.splits)
    note b = py_index_bound [OF y0] py_index_bound [OF x0]
    show ?thesis
    proof (cases "ins ! y0 ! x0 = - 1 \<and> pedestrian (sem_at sem y0 x0)")
      case True
      let ?ins1 = "assign ins y0 x0 wid"
      from True Cons.prems False y0 x0
      have run: "scan_row sem wid y xs (?ins1, cnt + 1) = Inr (ins', cnt')"
        by simp
      have nth1: "?ins1 ! yi ! xi = (if yi = y0 \<and> xi = x0 then wid else ins ! yi ! xi)"
        by (rule assign_nth [OF b])
      show ?thesis
      proof (cases "ins' ! yi ! xi = ?ins1 ! yi ! xi")
        case True
        with Cons.prems(4) nth1 \<open>ins ! y0 ! x0 = - 1 \<and> pedestrian (sem_at sem y0 x0)\<close>
        show ?thesis by (auto split: if_splits)
      next
        case changed: False
        have "?ins1 ! yi ! xi = - 1 \<and> pedestrian (sem_at sem yi xi) \<and> ins' ! yi ! xi = wid"
          using Cons.IH [OF run _ _ changed] Cons.prems(2,3) by simp
        with nth1 True show ?thesis by (auto split: if_splits)
      qed
    next
      case no: False
      with Cons.prems False y0 x0
      have "scan_row sem wid y xs (ins, cnt) = Inr (ins', cnt')"
        by auto
      from Cons.IH [OF this Cons.prems(2,3,4)] show ?thesis .
    qed
  qed
qed

lemma scan_rows_shape:
  "scan_rows sem wid ys xs (ins, cnt) = Inr (ins', cnt') \<Longrightarrow>
   length ins' = length ins \<and> (\<forall>k. length (ins' ! k) = length (ins ! k))"
proof (induction ys arbitrary: ins cnt)
  case Nil
  then show ?case by simp
next
  case (Cons y ys)
  show ?case
  proof (cases "y \<ge> int (sem_h sem)")
    case True
    with Cons.prems show ?thesis by simp
  next
    case False
    with Cons.prems obtain ins1 cnt1 where
      r1: "scan_row sem wid y xs (ins, cnt) = Inr (ins1, cnt1)"
      and r2: "scan_rows sem wid ys xs (ins1, cnt1) = Inr (ins', cnt')"
      by (auto split: sum.splits)
    from scan_row_shape [OF r1] Cons.IH [OF r2] show ?thesis by simp
  qed
qed

lemma scan_rows_change:
  "scan_rows sem wid ys xs (ins, cnt) = Inr (ins', cnt') \<Longrightarrow>
   yi < length ins \<Longrightarrow> xi < length (ins ! yi) \<Longrightarrow> ins' ! yi ! xi \<noteq> ins ! yi ! xi \<Longrightarrow>
   ins ! yi ! xi = - 1 \<and> pedestrian (sem_at sem yi xi) \<and> ins' ! yi ! xi = wid"
proof (induction ys arbitrary: ins cnt)
  case Nil
  then show ?case by simp
next
  case (Cons y ys)
  show ?case
  proof (cases "y \<ge> int (sem_h sem)")
    case True
    with Cons.prems show ?thesis by simp
  next
    case False
    with Cons.prems obtain ins1 cnt1 where
      r1: "scan_row sem wid y xs (ins, cnt) = Inr (ins1, cnt1)"
      and r2: "scan_rows sem wid ys xs (ins1, cnt1) = Inr (ins', cnt')"
      by (auto split: sum.splits)
    note sh = scan_row_shape [OF r1]
    show ?thesis
    proof (cases "ins' ! yi ! xi = ins1 ! yi ! xi")
      case True
      with scan_row_change [OF r1 Cons.prems(2,3)] Cons.prems(4) show ?thesis by simp
    next
      case changed: False
      have c2: "ins1 ! yi ! xi = - 1 \<and> pedestrian (sem_at sem yi xi) \<and> ins' ! yi ! xi = wid"
        using Cons.IH [OF r2 _ _ changed] Cons.prems(2,3) sh by simp
      show ?thesis
      proof (cases "ins1 ! yi ! xi = ins ! yi ! xi")
        case True
        with c2 show ?thesis by simp
      next
        case False
        from scan_row_change [OF r1 Cons.prems(2,3) False] c2 show ?thesis by simp
      qed
    qed
  qed
qed


lemma visit_cases:
  assumes "visit save frame sem w st = Inr st'"
  shows "(bb2d w = None \<and> st' = st)
       \<or> (\<exists>minx miny maxx maxy ins cnt.
             bb2d w = Some ((minx, miny), (maxx, maxy))
           \<and> scan_rows sem (walker_id w) [miny..maxy] [minx..maxx] (inst st, 0) = Inr (ins, cnt)
           \<and> inst st' = ins
           \<and> (\<exists>new. gt st' = gt st @ new) \<and> (\<exists>new. drawn st' = drawn st @ new))"
  using assms unfolding visit_def Let_def
  by (auto split: option.splits sum.splits prod.splits if_splits)

lemma visit_shape:
  assumes "visit save frame sem w st = Inr st'"
  shows "length (inst st') = length (inst st) \<and> (\<forall>k. length (inst st' ! k) = length (inst st ! k))"
  using visit_cases [OF assms] scan_rows_shape by blast

lemma visit_change:
  assumes "visit save frame sem w st = Inr st'"
    and "yi < length (inst st)" and "xi < length (inst st ! yi)"
    and "inst st' ! yi ! xi \<noteq> inst st ! yi ! xi"
  shows "inst st ! yi ! xi = - 1 \<and> pedestrian (sem_at sem yi xi) \<and> inst st' ! yi ! xi = walker_id w"
  using visit_cases [OF assms(1)] assms(2-) scan_rows_change by blast


lemma walkers_loop_keeps:
  "walkers_loop save frame sem ws st = Inr st' \<Longrightarrow>
   yi < length (inst st) \<Longrightarrow> xi < length (inst st ! yi) \<Longrightarrow> inst st ! yi ! xi \<noteq> - 1 \<Longrightarrow>
   inst st' ! yi ! xi = inst st ! yi ! xi"
proof (induction ws arbitrary: st)
  case Nil
  then show ?case by simp
next
  case (Cons w ws)
  then obtain st1 where v: "visit save frame sem w st = Inr st1"
    and l: "walkers_loop save frame sem ws st1 = Inr st'"
    by (auto split: sum.splits)
  have same: "inst st1 ! yi ! xi = inst st ! yi ! xi"
    using visit_change [OF v Cons.prems(2,3)] Cons.prems(4) by blast
  from Cons.IH [OF l] visit_shape [OF v] Cons.prems(2,3,4) same show ?case by simp
qed


lemma walkers_loop_assigned:
  "walkers_loop save frame sem ws st = Inr st' \<Longrightarrow>
   yi < length (inst st) \<Longrightarrow> xi < length (inst st ! yi) \<Longrightarrow>
   inst st' ! yi ! xi \<noteq> inst st ! yi ! xi \<Longrightarrow>
   inst st ! yi ! xi = - 1 \<and> pedestrian (sem_at sem yi xi)
   \<and> (\<exists>w \<in> set ws. inst st' ! yi ! xi = walker_id w)"
proof (induction ws arbitrary: st)
  case Nil
  then show ?case by simp
next
  case (Cons w ws)
  then obtain st1 where v: "visit save frame sem w st = Inr st1"
    and l: "walkers_loop save frame sem ws st1 = Inr st'"
    by (auto split: sum.splits)
  note sh = visit_shape [OF v]
  show ?case
  proof (cases "inst st1 ! yi ! xi = inst st ! yi ! xi")
    case True
    with Cons.IH [OF l] sh Cons.prems(2,3,4) show ?thesis by simp
  next
    case False
    note c = visit_change [OF v Cons.prems(2,3) False]
    show ?thesis
    proof (cases "inst st' ! yi ! xi = inst st1 ! yi ! xi")
      case True
      with c show ?thesis by simp
    next
      case changed: False
      from Cons.IH [OF l _ _ changed] sh Cons.prems(2,3) c show ?thesis by simp
    qed
  qed
qed


text \<open>The constructor applied to the flat box in the corner of the image.\<close>

lemma Walker_corner: "Walker exact origin i (ahead m) corner_bbox = Inr (corner_walker i m)"
  by (cases "m = 0")
     (simp_all add: Walker_def eval_defs corner_bbox_def corner_walker_def get_distance_def
        fl_sub_def fl_add_def fl_mul_def origin_def ahead_def)


lemma rank_float_lt: "\<not> is_nan a \<Longrightarrow> \<not> is_nan b \<Longrightarrow> rank a < rank b \<Longrightarrow> float_lt a b"
  by (cases a; cases b) (auto simp: float_lt_def)

lemma mset_sort_walkers [simp]: "mset (sort_walkers unordered walkers) = mset walkers"
  by (simp add: sort_walkers_def)

lemma set_sort_walkers [simp]: "set (sort_walkers unordered walkers) = set walkers"
  using mset_sort_walkers [of unordered walkers] by (metis set_mset_mset)

lemma empty_buffer_shape:
  "length (empty_buffer sem) = sem_h sem"
  "yi < sem_h sem \<Longrightarrow> length (empty_buffer sem ! yi) = sem_w sem"
  "yi < sem_h sem \<Longrightarrow> xi < sem_w sem \<Longrightarrow> empty_buffer sem ! yi ! xi = - 1"
  by (simp_all add: empty_buffer_def)

section \<open>The instance buffer (C5)\<close>

text \<open>
  C5. When the scan of a walker changes a pixel of the instance buffer, the pixel held
  \<open>-1\<close> when the scan started, the semantic raster has the pedestrian colour there, and
  the pixel now holds the id of the walker; a pixel that fails either condition keeps
  its value. Over a whole frame, which starts from the buffer of \<open>-1\<close>, every assigned
  pixel is a pedestrian pixel and holds the id of one of the walkers.
\<close>

theorem C5_claim_needs_unassigned_pedestrian:
  "(visit save frame sem w st = Inr st' \<longrightarrow>
      yi < length (inst st) \<longrightarrow> xi < length (inst st ! yi) \<longrightarrow>
      inst st' ! yi ! xi \<noteq> inst st ! yi ! xi \<longrightarrow>
        inst st ! yi ! xi = - 1 \<and> pedestrian (sem_at sem yi xi)
        \<and> inst st' ! yi ! xi = walker_id w)
   \<and> (process_walkers unordered save frame sem walkers lines = Inr st'' \<longrightarrow>
      yi < sem_h sem \<longrightarrow> xi < sem_w sem \<longrightarrow> inst st'' ! yi ! xi \<noteq> - 1 \<longrightarrow>
        pedestrian (sem_at sem yi xi)
        \<and> (\<exists>w \<in> set walkers. inst st'' ! yi ! xi = walker_id w))"
proof -
  have part2: "pedestrian (sem_at sem yi xi) \<and> (\<exists>w \<in> set walkers. inst st'' ! yi ! xi = walker_id w)"
    if run: "process_walkers unordered save frame sem walkers lines = Inr st''"
      and b: "yi < sem_h sem" "xi < sem_w sem" and a: "inst st'' ! yi ! xi \<noteq> - 1"
  proof -
    let ?st0 = "frame_start sem lines"
    from run have l: "walkers_loop save frame sem (sort_walkers unordered walkers) ?st0 = Inr st''"
      by (simp add: process_walkers_def)
    have i0: "yi < length (inst ?st0)" "xi < length (inst ?st0 ! yi)" "inst ?st0 ! yi ! xi = - 1"
      using b by (simp_all add: frame_start_def empty_buffer_shape)
    with a have "inst st'' ! yi ! xi \<noteq> inst ?st0 ! yi ! xi" by simp
    from walkers_loop_assigned [OF l i0(1,2) this] show ?thesis by simp
  qed
  show ?thesis
    using visit_change [of save frame sem w st st' yi xi] part2 by blast
qed

theorem C5_claim_needs_unassigned_pedestrian_witness:
  "visit True 1 sem2 (corner_walker 7 1) (frame_start sem2 [])
     = Inr \<lparr>inst = [[7, - 1], [7, - 1]], drawn = [], gt = []\<rparr>
   \<and> inst (frame_start sem2 []) ! 0 ! 0 = - 1
   \<and> pedestrian (sem_at sem2 0 0)
   \<and> process_walkers id True 1 sem2 [corner_walker 5 2, corner_walker 7 1] []
     = Inr \<lparr>inst = [[7, - 1], [7, - 1]], drawn = [], gt = []\<rparr>
   \<and> (\<exists>w \<in> set [corner_walker 5 2, corner_walker 7 1]. walker_id w = 7)"
proof -
  let ?st = "frame_start sem2 []"
  let ?st' = "\<lparr>inst = [[7, - 1], [7, - 1]], drawn = [], gt = []\<rparr> :: frame_state"
  have v: "visit True 1 sem2 (corner_walker 7 1) ?st = Inr ?st'"
    by code_simp
  have p: "process_walkers id True 1 sem2 [corner_walker 5 2, corner_walker 7 1] [] = Inr ?st'"
    by code_simp
  have h: "0 < length (inst ?st)" "0 < length (inst ?st ! 0)" "inst ?st' ! 0 ! 0 \<noteq> inst ?st ! 0 ! 0"
    "(0::nat) < sem_h sem2" "(0::nat) < sem_w sem2" "inst ?st' ! 0 ! 0 \<noteq> - 1"
    by (simp_all add: frame_start_def empty_buffer_def sem2_def)
  from C5_claim_needs_unassigned_pedestrian
    [of True 1 sem2 "corner_walker 7 1" ?st ?st' 0 0 id "[corner_walker 5 2, corner_walker 7 1]" "[]" ?st']
    v p h
  have "inst ?st ! 0 ! 0 = - 1 \<and> pedestrian (sem_at sem2 0 0)
      \<and> (\<exists>w \<in> set [corner_walker 5 2, corner_walker 7 1]. inst ?st' ! 0 ! 0 = walker_id w)"
    by blast
  with v p show ?thesis by simp
qed

section \<open>No rollback on rejection (C7)\<close>

text \<open>
  C7, as claimed: the pixels claimed by a walker that fails the visibility test stay
  assigned to its id for the rest of the frame and keep farther walkers from claiming
  them. For a walker with the id \<open>-1\<close> this fails: the walker below is rejected with two
  pixels counted, which hold \<open>-1\<close> after its scan, and the scan of walker 5 counts and
  takes the same two pixels.
\<close>

theorem C7_sentinel_id_does_not_block:
  "Walker exact origin (- 1) (ahead 1) corner_bbox = Inr (corner_walker (- 1) 1)
   \<and> scan_rows sem2 (walker_id (corner_walker (- 1) 1)) [0..35] [0..17] (inst (frame_start sem2 []), 0)
       = Inr ([[- 1, - 1], [- 1, - 1]], 2)
   \<and> visit True 1 sem2 (corner_walker (- 1) 1) (frame_start sem2 [])
       = Inr \<lparr>inst = [[- 1, - 1], [- 1, - 1]], drawn = [], gt = []\<rparr>
   \<and> scan_rows sem2 (walker_id (corner_walker 5 2)) [0..35] [0..17] ([[- 1, - 1], [- 1, - 1]], 0)
       = Inr ([[5, - 1], [5, - 1]], 2)
   \<and> walkers_loop True 1 sem2 [corner_walker 5 2] \<lparr>inst = [[- 1, - 1], [- 1, - 1]], drawn = [], gt = []\<rparr>
       = Inr \<lparr>inst = [[5, - 1], [5, - 1]], drawn = [], gt = []\<rparr>"
proof -
  have w: "Walker exact origin (- 1) (ahead 1) corner_bbox = Inr (corner_walker (- 1) 1)"
    by (rule Walker_corner)
  have a: "scan_rows sem2 (walker_id (corner_walker (- 1) 1)) [0..35] [0..17] (inst (frame_start sem2 []), 0)
       = Inr ([[- 1, - 1], [- 1, - 1]], 2)"
    by code_simp
  have b: "visit True 1 sem2 (corner_walker (- 1) 1) (frame_start sem2 [])
       = Inr \<lparr>inst = [[- 1, - 1], [- 1, - 1]], drawn = [], gt = []\<rparr>"
    by code_simp
  have c: "scan_rows sem2 (walker_id (corner_walker 5 2)) [0..35] [0..17] ([[- 1, - 1], [- 1, - 1]], 0)
       = Inr ([[5, - 1], [5, - 1]], 2)"
    by code_simp
  have d: "walkers_loop True 1 sem2 [corner_walker 5 2] \<lparr>inst = [[- 1, - 1], [- 1, - 1]], drawn = [], gt = []\<rparr>
       = Inr \<lparr>inst = [[5, - 1], [5, - 1]], drawn = [], gt = []\<rparr>"
    by code_simp
  from w a b c d show ?thesis by (intro conjI)
qed

text \<open>
  C7, amended: let the scan of walker \<open>a\<close>, whose id is not \<open>-1\<close>, return the buffer
  \<open>ins\<close> and a count below the visibility threshold. Then the visit keeps \<open>ins\<close> and
  neither draws nor writes anything, every pixel that the scan changed holds the id of
  \<open>a\<close>, and it still holds it after any walkers visited later in the frame, so none of
  them can claim it (C5).
\<close>

theorem C7_rejected_walker_keeps_pixels:
  assumes box: "bb2d a = Some ((minx, miny), (maxx, maxy))"
    and scan: "scan_rows sem (walker_id a) [miny..maxy] [minx..maxx] (inst st, 0) = Inr (ins, cnt)"
    and rejected: "0 < (maxx - minx + 1) * (maxy - miny + 1)"
                  "10 * cnt < 2 * ((maxx - minx + 1) * (maxy - miny + 1))"
    and wid: "walker_id a \<noteq> - 1"
    and px: "yi < length (inst st)" "xi < length (inst st ! yi)" "ins ! yi ! xi \<noteq> inst st ! yi ! xi"
    and later: "walkers_loop save frame sem ws (st\<lparr>inst := ins\<rparr>) = Inr st2"
  shows "visit save frame sem a st = Inr (st\<lparr>inst := ins\<rparr>)
       \<and> drawn (st\<lparr>inst := ins\<rparr>) = drawn st \<and> gt (st\<lparr>inst := ins\<rparr>) = gt st
       \<and> ins ! yi ! xi = walker_id a
       \<and> inst st2 ! yi ! xi = walker_id a"
proof -
  have v: "visit save frame sem a st = Inr (st\<lparr>inst := ins\<rparr>)"
    using box scan rejected by (simp add: visit_def)
  have c: "ins ! yi ! xi = walker_id a"
    using scan_rows_change [OF scan px] by simp
  have sh: "length ins = length (inst st)" "length (ins ! yi) = length (inst st ! yi)"
    using scan_rows_shape [OF scan] by simp_all
  have k: "inst st2 ! yi ! xi = walker_id a"
    using walkers_loop_keeps [OF later, of yi xi] sh px(1,2) c wid by simp
  from v c k show ?thesis by simp
qed

theorem C7_rejected_walker_keeps_pixels_witness:
  "bb2d (corner_walker 7 1) = Some ((0, 0), (17, 35))
   \<and> scan_rows sem2 (walker_id (corner_walker 7 1)) [0..35] [0..17] (inst (frame_start sem2 []), 0)
       = Inr ([[7, - 1], [7, - 1]], 2)
   \<and> (10::int) * 2 < 2 * ((17 - 0 + 1) * (35 - 0 + 1))
   \<and> walker_id (corner_walker 7 1) \<noteq> - 1
   \<and> [[7, - 1], [7, - 1]] ! 0 ! 0 \<noteq> inst (frame_start sem2 []) ! 0 ! 0
   \<and> walkers_loop True 1 sem2 [corner_walker 5 2] ((frame_start sem2 [])\<lparr>inst := [[7, - 1], [7, - 1]]\<rparr>)
       = Inr \<lparr>inst = [[7, - 1], [7, - 1]], drawn = [], gt = []\<rparr>
   \<and> visit True 1 sem2 (corner_walker 7 1) (frame_start sem2 [])
       = Inr ((frame_start sem2 [])\<lparr>inst := [[7, - 1], [7, - 1]]\<rparr>)
   \<and> inst \<lparr>inst = [[7, - 1], [7, - 1]], drawn = [], gt = []\<rparr> ! 0 ! 0 = walker_id (corner_walker 7 1)"
proof -
  let ?st = "frame_start sem2 []"
  let ?ins = "[[7, - 1], [7, - 1]] :: buffer"
  let ?st2 = "\<lparr>inst = ?ins, drawn = [], gt = []\<rparr> :: frame_state"
  have b: "bb2d (corner_walker 7 1) = Some ((0, 0), (17, 35))" by (simp add: corner_walker_def)
  have s: "scan_rows sem2 (walker_id (corner_walker 7 1)) [0..35] [0..17] (inst ?st, 0) = Inr (?ins, 2)"
    by code_simp
  have r: "(0::int) < (17 - 0 + 1) * (35 - 0 + 1)" "(10::int) * 2 < 2 * ((17 - 0 + 1) * (35 - 0 + 1))"
    by simp_all
  have i: "walker_id (corner_walker 7 1) \<noteq> - 1" by (simp add: corner_walker_def)
  have p: "0 < length (inst ?st)" "0 < length (inst ?st ! 0)" "?ins ! 0 ! 0 \<noteq> inst ?st ! 0 ! 0"
    by (simp_all add: frame_start_def empty_buffer_def sem2_def)
  have l: "walkers_loop True 1 sem2 [corner_walker 5 2] (?st\<lparr>inst := ?ins\<rparr>) = Inr ?st2"
    by code_simp
  note c7 = C7_rejected_walker_keeps_pixels [OF b s r i p l]
  from c7 have v: "visit True 1 sem2 (corner_walker 7 1) ?st = Inr (?st\<lparr>inst := ?ins\<rparr>)"
    by (elim conjE)
  from c7 have k: "inst ?st2 ! 0 ! 0 = walker_id (corner_walker 7 1)"
    by (elim conjE)
  from b s r(2) i p(3) l v k show ?thesis by (intro conjI)
qed

section \<open>The count of a scan\<close>

lemma takeWhile_upto: "takeWhile (\<lambda>x. x < n) [a..b] = [a..min b (n - 1)]"
proof (induction a b rule: upto.induct)
  case (1 i j)
  show ?case
  proof (cases "i \<le> j")
    case False
    then show ?thesis by simp
  next
    case True
    show ?thesis
    proof (cases "i < n")
      case lt: True
      with True have "i \<le> min j (n - 1)" by simp
      then have "[i..min j (n - 1)] = i # [i + 1..min j (n - 1)]" by (rule upto_rec1)
      with 1 True lt show ?thesis by (simp add: upto_rec1 [of i j])
    next
      case False
      with True show ?thesis by (simp add: upto_rec1 [of i j])
    qed
  qed
qed

lemma shape_rows: "shape sem ins \<Longrightarrow> k < sem_h sem \<Longrightarrow> length (ins ! k) = sem_w sem"
  by (simp add: shape_def list_all_length)

lemma shape_assign: "shape sem ins \<Longrightarrow> shape sem (assign ins yi xi wid)"
  by (simp add: shape_def list_all_length)

lemma shape_empty: "shape sem (empty_buffer sem)"
  by (simp add: shape_def empty_buffer_def list_all_length)

lemma assign_other_row: "k \<noteq> yi \<Longrightarrow> assign ins yi xi wid ! k = ins ! k"
  by (simp add: assign_def)

lemma scan_row_count:
  assumes "shape sem ins" and "0 \<le> y" and "y < int (sem_h sem)"
    and "\<forall>x \<in> set xs. 0 \<le> x" and "distinct xs"
  shows "\<exists>ins'. scan_row sem wid y xs (ins, cnt)
           = Inr (ins', cnt + int (length (filter (\<lambda>x. claimable sem ins (y, x))
                                        (takeWhile (\<lambda>x. x < int (sem_w sem)) xs))))
         \<and> shape sem ins' \<and> (\<forall>k. k \<noteq> nat y \<longrightarrow> ins' ! k = ins ! k)"
  using assms
proof (induction xs arbitrary: ins cnt)
  case Nil
  then show ?case by simp
next
  case (Cons x xs)
  let ?tw = "takeWhile (\<lambda>x. x < int (sem_w sem)) xs"
  show ?case
  proof (cases "x \<ge> int (sem_w sem)")
    case True
    with Cons.prems show ?thesis by simp
  next
    case False
    have len: "length ins = sem_h sem" using Cons.prems(1) by (simp add: shape_def)
    have yi: "py_index (length ins) y = Inr (nat y)"
      using Cons.prems(2,3) len by (simp add: py_index_def)
    have rowlen: "length (ins ! nat y) = sem_w sem"
      using shape_rows [OF Cons.prems(1)] Cons.prems(2,3) by simp
    have x0: "0 \<le> x" using Cons.prems(4) by simp
    have xi: "py_index (length (ins ! nat y)) x = Inr (nat x)"
      using False x0 rowlen by (simp add: py_index_def)
    have rest: "\<forall>x \<in> set xs. 0 \<le> x" "distinct xs" "x \<notin> set xs"
      using Cons.prems(4,5) by simp_all
    show ?thesis
    proof (cases "claimable sem ins (y, x)")
      case True
      let ?ins1 = "assign ins (nat y) (nat x) wid"
      have step: "scan_row sem wid y (x # xs) (ins, cnt) = scan_row sem wid y xs (?ins1, cnt + 1)"
        using True False yi xi by (simp add: claimable_def)
      have sh1: "shape sem ?ins1" by (rule shape_assign [OF Cons.prems(1)])
      from Cons.IH [OF sh1 Cons.prems(2,3) rest(1,2), of "cnt + 1"]
      obtain ins' where
        r: "scan_row sem wid y xs (?ins1, cnt + 1)
              = Inr (ins', cnt + 1 + int (length (filter (\<lambda>x. claimable sem ?ins1 (y, x)) ?tw)))"
        and s: "shape sem ins'" and o: "\<forall>k. k \<noteq> nat y \<longrightarrow> ins' ! k = ?ins1 ! k"
        by blast
      have same: "claimable sem ?ins1 (y, x') = claimable sem ins (y, x')" if "x' \<in> set ?tw" for x'
      proof -
        from that have "x' \<in> set xs" by (auto dest: set_takeWhileD)
        with rest x0 have "0 \<le> x'" "x' \<noteq> x" by auto
        then have ne: "nat x' \<noteq> nat x" using x0 by simp
        have "nat y < length ins" "nat x < length (ins ! nat y)"
          using Cons.prems(2,3) len rowlen False x0 by simp_all
        from assign_nth [OF this, of wid "nat y" "nat x'"] \<open>nat x' \<noteq> nat x\<close>
        show ?thesis by (simp add: claimable_def)
      qed
      have "filter (\<lambda>x. claimable sem ?ins1 (y, x)) ?tw = filter (\<lambda>x. claimable sem ins (y, x)) ?tw"
        by (rule filter_cong) (simp_all add: same)
      with r step True False s o show ?thesis
        by (simp add: assign_other_row)
    next
      case no: False
      have step: "scan_row sem wid y (x # xs) (ins, cnt) = scan_row sem wid y xs (ins, cnt)"
        using no False yi xi by (auto simp: claimable_def)
      from Cons.IH [OF Cons.prems(1,2,3) rest(1,2), of cnt] step no False
      show ?thesis by simp
    qed
  qed
qed

lemma scan_rows_count:
  assumes "shape sem ins" and "\<forall>y \<in> set ys. 0 \<le> y" and "distinct ys"
    and "\<forall>x \<in> set xs. 0 \<le> x" and "distinct xs"
  shows "\<exists>ins'. scan_rows sem wid ys xs (ins, cnt)
           = Inr (ins', cnt + int (length (filter (claimable sem ins)
                    (List.product (takeWhile (\<lambda>y. y < int (sem_h sem)) ys)
                                  (takeWhile (\<lambda>x. x < int (sem_w sem)) xs)))))
         \<and> shape sem ins' \<and> (\<forall>k. int k \<notin> set ys \<longrightarrow> ins' ! k = ins ! k)"
  using assms(1,2,3)
proof (induction ys arbitrary: ins cnt)
  case Nil
  then show ?case by simp
next
  case (Cons y ys)
  let ?twx = "takeWhile (\<lambda>x. x < int (sem_w sem)) xs"
  let ?twy = "takeWhile (\<lambda>y. y < int (sem_h sem)) ys"
  show ?case
  proof (cases "y \<ge> int (sem_h sem)")
    case True
    with Cons.prems show ?thesis by simp
  next
    case False
    have y0: "0 \<le> y" and rest: "\<forall>y \<in> set ys. 0 \<le> y" "distinct ys" "y \<notin> set ys"
      using Cons.prems(2,3) by simp_all
    from scan_row_count [OF Cons.prems(1) y0 _ assms(4,5), of wid cnt] False
    obtain ins1 where
      r1: "scan_row sem wid y xs (ins, cnt)
             = Inr (ins1, cnt + int (length (filter (\<lambda>x. claimable sem ins (y, x)) ?twx)))"
      and s1: "shape sem ins1" and o1: "\<forall>k. k \<noteq> nat y \<longrightarrow> ins1 ! k = ins ! k"
      by auto
    let ?cnt1 = "cnt + int (length (filter (\<lambda>x. claimable sem ins (y, x)) ?twx))"
    from Cons.IH [OF s1 rest(1,2), of ?cnt1]
    obtain ins' where
      r2: "scan_rows sem wid ys xs (ins1, ?cnt1)
             = Inr (ins', ?cnt1 + int (length (filter (claimable sem ins1) (List.product ?twy ?twx))))"
      and s2: "shape sem ins'" and o2: "\<forall>k. int k \<notin> set ys \<longrightarrow> ins' ! k = ins1 ! k"
      by blast
    have same: "claimable sem ins1 p = claimable sem ins p" if "p \<in> set (List.product ?twy ?twx)" for p
    proof -
      obtain y' x' where p: "p = (y', x')" by (cases p)
      with that have "y' \<in> set ?twy" by simp
      then have "y' \<in> set ys" by (auto dest: set_takeWhileD)
      with rest y0 have "0 \<le> y'" "y' \<noteq> y" by auto
      then have "nat y' \<noteq> nat y" using y0 by simp
      with o1 p show ?thesis by (simp add: claimable_def)
    qed
    have f: "filter (claimable sem ins1) (List.product ?twy ?twx)
           = filter (claimable sem ins) (List.product ?twy ?twx)"
      by (rule filter_cong) (simp_all add: same)
    have row: "length (filter (claimable sem ins) (map (Pair y) ?twx))
             = length (filter (\<lambda>x. claimable sem ins (y, x)) ?twx)"
      by (simp add: filter_map comp_def)
    have others: "\<forall>k. int k \<notin> set (y # ys) \<longrightarrow> ins' ! k = ins ! k"
    proof (intro allI impI)
      fix k assume k: "int k \<notin> set (y # ys)"
      then have "k \<noteq> nat y" using y0 by auto
      with o1 o2 k show "ins' ! k = ins ! k" by simp
    qed
    from r1 r2 False f row s2 others show ?thesis
      by simp
  qed
qed


lemma Walker_wide: "Walker exact origin i (ahead m) wide_bbox = Inr (wide_walker i m)"
  by (cases "m = 0")
     (simp_all add: Walker_def eval_defs wide_bbox_def wide_walker_def get_distance_def
        fl_sub_def fl_add_def fl_mul_def origin_def ahead_def)

lemma Walker_fields:
  assumes "Walker rnd cam_loc i l bbox = Inr w"
  shows "walker_id w = i \<and> location w = l \<and> dist w = get_distance rnd cam_loc l
       \<and> get_2d_bounding_box rnd bbox = Inr (bb2d w)"
  using assms by (auto simp: Walker_def split: sum.splits)

lemma Walker_rect:
  assumes "Walker rnd cam_loc i l bbox = Inr w" and "bb2d w = Some ((minx, miny), (maxx, maxy))"
  shows "0 \<le> minx \<and> 0 \<le> miny \<and> 17 \<le> maxx - minx \<and> 35 \<le> maxy - miny"
  using Walker_fields [OF assms(1)] assms(2) rect_shape [of rnd bbox minx miny maxx maxy] by simp

lemma scan_rect_count:
  assumes "shape sem ins" and "0 \<le> minx" and "0 \<le> miny"
  shows "\<exists>ins'. scan_rows sem wid [miny..maxy] [minx..maxx] (ins, 0)
           = Inr (ins', claimed sem ins ((minx, miny), (maxx, maxy))) \<and> shape sem ins'"
proof -
  have "\<forall>y \<in> set [miny..maxy]. 0 \<le> y" "\<forall>x \<in> set [minx..maxx]. 0 \<le> x"
    using assms(2,3) by auto
  from scan_rows_count [OF assms(1) this(1) distinct_upto this(2) distinct_upto, of wid 0]
  show ?thesis
    using assms(2,3) by (auto simp: takeWhile_upto claimed_def clamped_pixels_def max_def)
qed

section \<open>Nearest first (C6)\<close>














section \<open>The visibility threshold (C2)\<close>

text \<open>
  C2. For a walker built by the constructor whose rectangle \<open>r\<close> reaches the loop, the
  visit returns, \<open>total r\<close> is positive, and the detection is drawn, and written when
  saving, exactly when \<open>10 * claimed >= 2 * total\<close>, where \<open>claimed\<close> counts the pixels of
  the clamped rectangle that are unassigned and pedestrian when the scan starts; that
  is exactly when the fraction \<open>claimed / total\<close> is at least 0.2. The witness has a
  rectangle of 720 pixels with 144 claimed, a fraction of exactly 0.2, which is accepted,
  and the same rectangle with 143 claimed, which is rejected.
\<close>

theorem C2_visibility_threshold:
  assumes "Walker rnd cam_loc i l bbox = Inr w" and "bb2d w = Some r" and "shape sem (inst st)"
  shows "\<exists>st'. visit save frame sem w st = Inr st'
       \<and> 0 < total r
       \<and> (if 2 * total r \<le> 10 * claimed sem (inst st) r
          then drawn st' = drawn st @ [r]
             \<and> gt st' = (if save then gt st @ [gt_line frame i r] else gt st)
          else drawn st' = drawn st \<and> gt st' = gt st)
       \<and> ((2 * total r \<le> 10 * claimed sem (inst st) r)
           = (1 / 5 \<le> real_of_int (claimed sem (inst st) r) / real_of_int (total r)))"
proof -
  obtain minx miny maxx maxy where r: "r = ((minx, miny), (maxx, maxy))"
    by (cases r) auto
  from Walker_rect [OF assms(1)] assms(2) r
  have b: "0 \<le> minx" "0 \<le> miny" "17 \<le> maxx - minx" "35 \<le> maxy - miny" by simp_all
  have wi: "walker_id w = i" using Walker_fields [OF assms(1)] by simp
  have "0 < (maxx - minx + 1)" "0 < (maxy - miny + 1)" using b by simp_all
  then have "0 < (maxx - minx + 1) * (maxy - miny + 1)" by (rule mult_pos_pos)
  then have t: "0 < total r" by (simp add: total_def r)
  from scan_rect_count [OF assms(3) b(1,2), of "walker_id w" maxy maxx]
  obtain ins where s: "scan_rows sem (walker_id w) [miny..maxy] [minx..maxx] (inst st, 0)
           = Inr (ins, claimed sem (inst st) r)"
    unfolding r by blast
  let ?c = "claimed sem (inst st) r"
  have frac: "(2 * total r \<le> 10 * ?c) = (1 / 5 \<le> real_of_int ?c / real_of_int (total r))"
  proof -
    have "(1 / 5 \<le> real_of_int ?c / real_of_int (total r))
        = (real_of_int (total r) \<le> 5 * real_of_int ?c)"
      using t by (simp add: field_simps)
    also have "\<dots> = (total r \<le> 5 * ?c)"
      by (metis of_int_le_iff of_int_mult of_int_numeral)
    finally show ?thesis by auto
  qed
  show ?thesis
  proof (cases "2 * total r \<le> 10 * ?c")
    case True
    with s t assms(2) r wi have
      "visit save frame sem w st
         = Inr (st\<lparr>inst := ins, drawn := drawn st @ [r],
                   gt := (if save then gt st @ [gt_line frame i r] else gt st)\<rparr>)"
      by (simp add: visit_def total_def)
    with True t frac show ?thesis by simp
  next
    case False
    with s t assms(2) r have "visit save frame sem w st = Inr (st\<lparr>inst := ins\<rparr>)"
      by (simp add: visit_def total_def)
    with False t frac show ?thesis by simp
  qed
qed

theorem C2_visibility_threshold_witness:
  "Walker exact origin 7 (ahead 1) wide_bbox = Inr (wide_walker 7 1)
   \<and> bb2d (wide_walker 7 1) = Some ((0, 0), (19, 35))
   \<and> shape sem_wide (inst (frame_start sem_wide []))
   \<and> total ((0, 0), (19, 35)) = 720
   \<and> claimed sem_wide (inst (frame_start sem_wide [])) ((0, 0), (19, 35)) = 144
   \<and> drawn (projr (visit True 1 sem_wide (wide_walker 7 1) (frame_start sem_wide [])))
       = [((0, 0), (19, 35))]
   \<and> gt (projr (visit True 1 sem_wide (wide_walker 7 1) (frame_start sem_wide [])))
       = [[1, 7, 0, 0, 20, 36, 1, 1, 1]]
   \<and> shape sem_below (inst (frame_start sem_below []))
   \<and> claimed sem_below (inst (frame_start sem_below [])) ((0, 0), (19, 35)) = 143
   \<and> drawn (projr (visit True 1 sem_below (wide_walker 7 1) (frame_start sem_below []))) = []
   \<and> gt (projr (visit True 1 sem_below (wide_walker 7 1) (frame_start sem_below []))) = []"
proof -
  let ?r = "((0, 0), (19, 35)) :: rect"
  have w: "Walker exact origin 7 (ahead 1) wide_bbox = Inr (wide_walker 7 1)"
    by (rule Walker_wide)
  have b: "bb2d (wide_walker 7 1) = Some ?r" by (simp add: wide_walker_def)
  have s1: "shape sem_wide (inst (frame_start sem_wide []))"
    and s2: "shape sem_below (inst (frame_start sem_below []))"
    by (simp_all add: frame_start_def shape_empty)
  have t: "total ?r = 720" by (simp add: total_def)
  have c1: "claimed sem_wide (inst (frame_start sem_wide [])) ?r = 144" by code_simp
  have c2: "claimed sem_below (inst (frame_start sem_below [])) ?r = 143" by code_simp
  have g: "gt (frame_start sem_wide []) = []" "drawn (frame_start sem_wide []) = []"
    "gt (frame_start sem_below []) = []" "drawn (frame_start sem_below []) = []"
    by (simp_all add: frame_start_def)
  from C2_visibility_threshold [OF w b s1, of True 1] t c1 g
  have a1: "drawn (projr (visit True 1 sem_wide (wide_walker 7 1) (frame_start sem_wide []))) = [?r]"
    and a2: "gt (projr (visit True 1 sem_wide (wide_walker 7 1) (frame_start sem_wide [])))
       = [[1, 7, 0, 0, 20, 36, 1, 1, 1]]"
    by (auto simp: gt_line_def)
  from C2_visibility_threshold [OF w b s2, of True 1] t c2 g
  have a3: "drawn (projr (visit True 1 sem_below (wide_walker 7 1) (frame_start sem_below []))) = []"
    and a4: "gt (projr (visit True 1 sem_below (wide_walker 7 1) (frame_start sem_below []))) = []"
    by auto
  from w b s1 t c1 a1 a2 s2 c2 a3 a4 show ?thesis by (intro conjI)
qed

section \<open>The size of a written detection (C10)\<close>

lemma visit_gt:
  assumes "visit save frame sem w st = Inr st'"
  shows "gt st' = gt st \<or> (\<exists>r. bb2d w = Some r \<and> gt st' = gt st @ [gt_line frame (walker_id w) r])"
  using assms unfolding visit_def Let_def
  by (auto split: option.splits sum.splits prod.splits if_splits)

lemma walkers_loop_gt:
  "walkers_loop save frame sem ws st = Inr st' \<Longrightarrow>
   \<exists>new. gt st' = gt st @ new
        \<and> (\<forall>line \<in> set new. \<exists>w \<in> set ws. \<exists>r. bb2d w = Some r \<and> line = gt_line frame (walker_id w) r)"
proof (induction ws arbitrary: st)
  case Nil
  then show ?case by simp
next
  case (Cons w ws)
  then obtain st1 where v: "visit save frame sem w st = Inr st1"
    and l: "walkers_loop save frame sem ws st1 = Inr st'"
    by (auto split: sum.splits)
  from Cons.IH [OF l] obtain new where
    n: "gt st' = gt st1 @ new"
       "\<forall>line \<in> set new. \<exists>w \<in> set ws. \<exists>r. bb2d w = Some r \<and> line = gt_line frame (walker_id w) r"
    by blast
  from visit_gt [OF v] show ?case
  proof
    assume "gt st1 = gt st"
    with n show ?thesis by auto
  next
    assume "\<exists>r. bb2d w = Some r \<and> gt st1 = gt st @ [gt_line frame (walker_id w) r]"
    then obtain r where r: "bb2d w = Some r" "gt st1 = gt st @ [gt_line frame (walker_id w) r]"
      by blast
    let ?new = "gt_line frame (walker_id w) r # new"
    have "gt st' = gt st @ ?new" using n(1) r(2) by simp
    moreover have "\<forall>line \<in> set ?new. \<exists>w' \<in> set (w # ws). \<exists>r. bb2d w' = Some r
          \<and> line = gt_line frame (walker_id w') r"
    proof
      fix line assume "line \<in> set ?new"
      then consider "line = gt_line frame (walker_id w) r" | "line \<in> set new" by auto
      then show "\<exists>w' \<in> set (w # ws). \<exists>r. bb2d w' = Some r
          \<and> line = gt_line frame (walker_id w') r"
      proof cases
        case 1
        with r(1) show ?thesis by (intro bexI [of _ w] exI [of _ r]) simp_all
      next
        case 2
        with n(2) obtain w' r' where "w' \<in> set ws" "bb2d w' = Some r'"
          "line = gt_line frame (walker_id w') r'" by blast
        then show ?thesis by (intro bexI [of _ w'] exI [of _ r']) simp_all
      qed
    qed
    ultimately show ?thesis by blast
  qed
qed


text \<open>
  C10. When the walkers of a frame are built by the constructor, every line that the
  frame appends to gt.txt has nine fields, a width field of at least 18 and a height
  field of at least 36: the size test lets through \<open>max - min >= 17\<close> and
  \<open>max - min >= 35\<close>, and the writer adds one to each. A written width of 17 or
  height of 35 does not occur.
\<close>

theorem C10_written_size_at_least_18_by_36:
  assumes "\<forall>w \<in> set walkers. \<exists>rnd cam_loc i l bbox. Walker rnd cam_loc i l bbox = Inr w"
    and "process_walkers unordered save frame sem walkers lines = Inr st"
  shows "\<exists>new. gt st = lines @ new
       \<and> (\<forall>line \<in> set new. length line = 9 \<and> 18 \<le> line ! 4 \<and> 36 \<le> line ! 5
             \<and> line ! 4 \<noteq> 17 \<and> line ! 5 \<noteq> 35)"
proof -
  from assms(2) have "walkers_loop save frame sem (sort_walkers unordered walkers) (frame_start sem lines) = Inr st"
    by (simp add: process_walkers_def)
  from walkers_loop_gt [OF this] obtain new where
    n: "gt st = lines @ new"
       "\<forall>line \<in> set new. \<exists>w \<in> set walkers. \<exists>r. bb2d w = Some r \<and> line = gt_line frame (walker_id w) r"
    by (auto simp: frame_start_def)
  have "length line = 9 \<and> 18 \<le> line ! 4 \<and> 36 \<le> line ! 5 \<and> line ! 4 \<noteq> 17 \<and> line ! 5 \<noteq> 35"
    if "line \<in> set new" for line
  proof -
    from n(2) that obtain w r where w: "w \<in> set walkers" "bb2d w = Some r"
      and line: "line = gt_line frame (walker_id w) r" by blast
    obtain minx miny maxx maxy where r: "r = ((minx, miny), (maxx, maxy))"
      by (cases r) auto
    from assms(1) w(1) obtain rnd cam_loc i l bbox where "Walker rnd cam_loc i l bbox = Inr w"
      by blast
    from Walker_rect [OF this] w(2) r have "17 \<le> maxx - minx" "35 \<le> maxy - miny" by simp_all
    with line r show ?thesis by (simp add: gt_line_def)
  qed
  with n(1) show ?thesis by blast
qed

theorem C10_written_size_at_least_18_by_36_witness:
  "list_all (\<lambda>w. Walker exact origin (walker_id w) (location w) corner_bbox = Inr w) [corner_walker 7 1]
   \<and> gt (projr (process_walkers id True 1 sem_wide [corner_walker 7 1] [])) = [[1, 7, 0, 0, 18, 36, 1, 1, 1]]
   \<and> process_walkers id True 1 sem_wide [corner_walker 7 1] []
       = Inr \<lparr>inst = replicate 8 (replicate 18 7), drawn = [((0, 0), (17, 35))],
              gt = [[1, 7, 0, 0, 18, 36, 1, 1, 1]]\<rparr>
   \<and> length [1, 7, 0, 0, 18, 36, 1, 1, 1 :: int] = 9
   \<and> (18 :: int) \<le> [1, 7, 0, 0, 18, 36, 1, 1, 1] ! 4 \<and> (36 :: int) \<le> [1, 7, 0, 0, 18, 36, 1, 1, 1] ! 5"
proof -
  let ?st = "\<lparr>inst = replicate 8 (replicate 18 7), drawn = [((0, 0), (17, 35))],
              gt = [[1, 7, 0, 0, 18, 36, 1, 1, 1]]\<rparr> :: frame_state"
  have b: "\<forall>w \<in> set [corner_walker 7 1]. \<exists>rnd cam_loc i l bbox. Walker rnd cam_loc i l bbox = Inr w"
    using Walker_corner [of 7 1] by (simp del: split_paired_Ex) blast
  have b': "list_all (\<lambda>w. Walker exact origin (walker_id w) (location w) corner_bbox = Inr w) [corner_walker 7 1]"
    using Walker_corner [of 7 1] by (simp add: corner_walker_def)
  have p: "process_walkers id True 1 sem_wide [corner_walker 7 1] [] = Inr ?st"
    by code_simp
  from C10_written_size_at_least_18_by_36 [OF b p]
  have "\<forall>line \<in> set (gt ?st). length line = 9 \<and> 18 \<le> line ! 4 \<and> 36 \<le> line ! 5"
    by auto
  then have s: "length [1, 7, 0, 0, 18, 36, 1, 1, 1 :: int] = 9"
    "(18 :: int) \<le> [1, 7, 0, 0, 18, 36, 1, 1, 1] ! 4" "(36 :: int) \<le> [1, 7, 0, 0, 18, 36, 1, 1, 1] ! 5"
    by simp_all
  have g: "gt (projr (process_walkers id True 1 sem_wide [corner_walker 7 1] [])) = [[1, 7, 0, 0, 18, 36, 1, 1, 1]]"
    using p by simp
  from b' g p s show ?thesis by (intro conjI)
qed

section \<open>Reading the walkers of a frame (C8)\<close>

lemma read_walkers_short:
  "length (split bad) < 10 \<Longrightarrow> read_walkers mk (gs @ bad # rest) = read_walkers mk gs"
  by (induction gs) (auto simp: Let_def split: sum.splits)

lemma read_walkers_built:
  "list_all2 (\<lambda>g w. g \<noteq> [0x0A] \<and> 10 \<le> length (split g)
                    \<and> mk (split g ! 1) (drop 2 (split g)) = Inr w) gs ws
   \<Longrightarrow> read_walkers mk gs = Inr ws"
  by (induction gs ws rule: list_all2_induct) (auto simp: Let_def)

text \<open>
  \<open>split\<close> separates at every character that \<open>str.isspace\<close> accepts, among them the
  no-break space U+00A0 and the next-line character U+0085.
\<close>

lemma split_unicode_space:
  "split (codes ''a'' @ [0xA0] @ codes ''b'' @ [0x85] @ codes ''c'' @ [0x0A])
     = [codes ''a'', codes ''b'', codes ''c'']"
  by (simp add: split_def is_space_def codes_def)

lemma Walker_ahead: "Walker exact origin 7 (ahead 10) ahead_bbox = Inr ahead_walker"
  by (simp add: Walker_def eval_defs ahead_bbox_def ahead_walker_def get_distance_def
        fl_sub_def fl_add_def fl_mul_def origin_def ahead_def)

lemma claimed_full:
  assumes "0 \<le> minx" "0 \<le> miny" "minx \<le> maxx" "miny \<le> maxy" "maxx < 800" "maxy < 600"
  shows "claimed sem_full (empty_buffer sem_full) ((minx, miny), (maxx, maxy))
           = total ((minx, miny), (maxx, maxy))"
proof -
  have c: "clamped_pixels sem_full ((minx, miny), (maxx, maxy))
             = List.product [miny..maxy] [minx..maxx]"
    using assms by (simp add: clamped_pixels_def sem_full_def max_def min_def)
  have "\<forall>p \<in> set (List.product [miny..maxy] [minx..maxx]). claimable sem_full (empty_buffer sem_full) p"
  proof
    fix p assume p: "p \<in> set (List.product [miny..maxy] [minx..maxx])"
    obtain y x where yx: "p = (y, x)" by (cases p)
    with p assms have "nat y < sem_h sem_full" "nat x < sem_w sem_full"
      by (auto simp: sem_full_def)
    from empty_buffer_shape(3) [OF this] yx
    show "claimable sem_full (empty_buffer sem_full) p"
      by (simp add: claimable_def pedestrian_def sem_full_def)
  qed
  then have "filter (claimable sem_full (empty_buffer sem_full)) (List.product [miny..maxy] [minx..maxx])
               = List.product [miny..maxy] [minx..maxx]"
    by (simp add: filter_id_conv)
  with c assms(3,4) show ?thesis
    by (simp add: claimed_def length_product total_def nat_mult_distrib mult.commute)
qed

lemma sort_walkers_single: "sort_walkers unordered [w] = [w]"
  by (simp add: sort_walkers_def)

lemma process_full:
  assumes "bb2d w = Some ((minx, miny), (maxx, maxy))"
    and "0 \<le> minx" "0 \<le> miny" "minx \<le> maxx" "miny \<le> maxy" "maxx < 800" "maxy < 600"
  shows "gt (projr (process_walkers unordered True frame sem_full [w] lines))
     = lines @ [gt_line frame (walker_id w) ((minx, miny), (maxx, maxy))]"
proof -
  let ?st = "frame_start sem_full lines"
  let ?r = "((minx, miny), (maxx, maxy))"
  have sh: "shape sem_full (inst ?st)" by (simp add: frame_start_def shape_empty)
  from scan_rect_count [OF sh assms(2,3), of "walker_id w" maxy maxx]
  obtain ins where s: "scan_rows sem_full (walker_id w) [miny..maxy] [minx..maxx] (inst ?st, 0)
           = Inr (ins, claimed sem_full (inst ?st) ?r)"
    by blast
  have c: "claimed sem_full (inst ?st) ?r = total ?r"
    using claimed_full [OF assms(2-)] by (simp add: frame_start_def)
  have "0 < (maxx - minx + 1)" "0 < (maxy - miny + 1)" using assms(4,5) by simp_all
  then have "0 < (maxx - minx + 1) * (maxy - miny + 1)" by (rule mult_pos_pos)
  then have t: "0 < total ?r" by (simp add: total_def)
  have "visit True frame sem_full w ?st
          = Inr (?st\<lparr>inst := ins, drawn := drawn ?st @ [?r],
                     gt := gt ?st @ [gt_line frame (walker_id w) ?r]\<rparr>)"
    using s c t assms(1) by (simp add: visit_def total_def)
  then show ?thesis
    by (simp add: process_walkers_def sort_walkers_single frame_start_def)
qed

lemma process_ahead_walker:
  "gt (projr (process_walkers unordered True 1 sem_full [ahead_walker] []))
     = [[1, 7, 389, 258, 22, 84, 1, 1, 1]]"
  using process_full [of ahead_walker 389 258 410 341 unordered 1 "[]"]
  by (simp add: ahead_walker_def gt_line_def)

text \<open>
  C8. A frame is read as a velocity line, a camera-setting line and a camera-pose line,
  followed by walker lines. When the walker lines \<open>gs\<close> have at least ten tokens each and
  the constructor builds the walkers \<open>ws\<close> from them, and the next line \<open>bad\<close> has fewer
  than ten tokens (a blank line has none), then the frame has exactly the walkers \<open>ws\<close>,
  whatever follows \<open>bad\<close>, and the body of the frame runs the occlusion loop on them.
  In the witness a line of four tokens stands between the lines of the walkers 7 and 5:
  walker 7 is in the frame and its detection is written, walker 5 is dropped.
\<close>

theorem C8_short_line_stops_parsing:
  assumes short: "length (split bad) < 10"
    and built: "list_all2 (\<lambda>g w. g \<noteq> [0x0A] \<and> 10 \<le> length (split g)
                    \<and> mk cam (split g ! 1) (drop 2 (split g)) = Inr w) gs ws"
    and cam: "mk_cam (tl (split cam_line)) (tl (split pose_line)) = Inr cam"
  shows "read_walkers (mk cam) (gs @ bad # rest) = Inr ws
       \<and> read_frame mk_cam mk (vel_line # cam_line # pose_line # gs @ bad # rest) = Inr (cam, ws)
       \<and> frame_body unordered save frame sem mk_cam mk
             (vel_line # cam_line # pose_line # gs @ bad # rest) lines
           = process_walkers unordered save frame sem ws lines"
proof -
  have w: "read_walkers (mk cam) (gs @ bad # rest) = Inr ws"
    using read_walkers_short [OF short, of "mk cam" gs rest] read_walkers_built [OF built] by simp
  then have f: "read_frame mk_cam mk (vel_line # cam_line # pose_line # gs @ bad # rest) = Inr (cam, ws)"
    using cam by (simp add: read_frame_def readline_def)
  then have "frame_body unordered save frame sem mk_cam mk
               (vel_line # cam_line # pose_line # gs @ bad # rest) lines
           = process_walkers unordered save frame sem ws lines"
    by (simp add: frame_body_def)
  with w f show ?thesis by simp
qed

theorem C8_short_line_stops_parsing_witness:
  "length (split line_short) < 10
   \<and> list_all2 (\<lambda>g w. g \<noteq> [0x0A] \<and> 10 \<le> length (split g)
                    \<and> log_walker origin (split g ! 1) (drop 2 (split g)) = Inr w)
        [line_walker7] [ahead_walker]
   \<and> log_camera (tl (split (log_header ! 1))) (tl (split (log_header ! 2))) = Inr origin
   \<and> read_frame log_camera log_walker (log_header @ [line_walker7, line_short, line_walker5])
       = Inr (origin, [ahead_walker])
   \<and> gt (projr (frame_body id True 1 sem_full log_camera log_walker
                   (log_header @ [line_walker7, line_short, line_walker5]) []))
       = [[1, 7, 389, 258, 22, 84, 1, 1, 1]]"
proof -
  have s: "length (split line_short) < 10"
    by (simp add: line_short_def split_def is_space_def codes_def)
  have sp: "split line_walker7 = map codes [''WALKER'', ''7'', ''0.25'', ''0.25'', ''1'', ''0'', ''0'', ''0'',
      ''10'', ''0'', ''0'', ''0'', ''0'', ''0'']"
    by (simp add: line_walker7_def split_def is_space_def codes_def)
  have b: "list_all2 (\<lambda>g w. g \<noteq> [0x0A] \<and> 10 \<le> length (split g)
                    \<and> log_walker origin (split g ! 1) (drop 2 (split g)) = Inr w)
        [line_walker7] [ahead_walker]"
    unfolding list_all2_Cons sp
    by (simp add: log_walker_def Walker_ahead) (simp add: line_walker7_def codes_def)
  have c: "log_camera (tl (split (log_header ! 1))) (tl (split (log_header ! 2))) = Inr origin"
    by (simp add: log_header_def split_def is_space_def log_camera_def codes_def)
  have h: "log_header @ [line_walker7, line_short, line_walker5]
      = (log_header ! 0) # (log_header ! 1) # (log_header ! 2) # [line_walker7] @ line_short # [line_walker5]"
    by (simp add: log_header_def)
  note c8 = C8_short_line_stops_parsing [where mk = log_walker and cam = origin
      and mk_cam = log_camera and bad = line_short and gs = "[line_walker7]"
      and ws = "[ahead_walker]" and cam_line = "log_header ! 1" and pose_line = "log_header ! 2"
      and rest = "[line_walker5]" and vel_line = "log_header ! 0" and save = True and frame = 1
      and sem = sem_full and lines = "[]" and unordered = id, OF s b c]
  from c8 have f: "read_frame log_camera log_walker (log_header @ [line_walker7, line_short, line_walker5])
       = Inr (origin, [ahead_walker])"
    unfolding h by (elim conjE)
  from c8 have "frame_body id True 1 sem_full log_camera log_walker
                   (log_header @ [line_walker7, line_short, line_walker5]) []
       = process_walkers id True 1 sem_full [ahead_walker] []"
    unfolding h by (elim conjE)
  with process_ahead_walker [of id]
  have g: "gt (projr (frame_body id True 1 sem_full log_camera log_walker
                   (log_header @ [line_walker7, line_short, line_walker5]) []))
       = [[1, 7, 389, 258, 22, 84, 1, 1, 1]]"
    by simp
  from s b c f g show ?thesis by (intro conjI)
qed

end
